theory Spec2Isabelle
  imports Main
begin

section \<open>Byte strings and the helpers of package \<^verbatim>\<open>strings\<close>\<close>

text \<open>
  A Go \<^verbatim>\<open>string\<close> is a sequence of bytes, modelled as a \<^typ>\<open>char list\<close>.  The patterns of
  \<^verbatim>\<open>fixRelativeLinks\<close> only name ASCII bytes and the class \<^verbatim>\<open>[^"]\<close>; an ASCII byte is
  never part of a longer UTF-8 sequence, and Go's decoder reads a malformed byte as one rune that
  \<^verbatim>\<open>[^"]\<close> accepts, so matching byte by byte and matching rune by rune agree on every input.
\<close>

definition dq :: char where
  "dq = CHR 0x22"

text \<open>\<^verbatim>\<open>strings.CutPrefix\<close>: the rest of the string after the prefix, if it is one.\<close>

fun cutPrefix :: "string \<Rightarrow> string \<Rightarrow> string option" where
  "cutPrefix [] s = Some s"
| "cutPrefix (p # ps) [] = None"
| "cutPrefix (p # ps) (c # cs) = (if p = c then cutPrefix ps cs else None)"

text \<open>\<^verbatim>\<open>strings.Contains(s, substr)\<close>.\<close>

fun contains :: "string \<Rightarrow> string \<Rightarrow> bool" where
  "contains [] sub = (sub = [])"
| "contains (c # cs) sub =
     (case cutPrefix sub (c # cs) of Some r \<Rightarrow> True | None \<Rightarrow> contains cs sub)"

text \<open>\<^verbatim>\<open>strings.HasSuffix\<close> and \<^verbatim>\<open>strings.TrimSuffix\<close>.\<close>

definition hasSuffix :: "string \<Rightarrow> string \<Rightarrow> bool" where
  "hasSuffix s suf \<longleftrightarrow> length suf \<le> length s \<and> drop (length s - length suf) s = suf"

definition trimSuffix :: "string \<Rightarrow> string \<Rightarrow> string" where
  "trimSuffix s suf = (if hasSuffix s suf then take (length s - length suf) s else s)"

section \<open>Regular expressions (package \<^verbatim>\<open>regexp\<close>)\<close>

text \<open>
  The fragment of the pattern language the program uses: literal text, a character class,
  concatenation, alternation, greedy \<^verbatim>\<open>+\<close> and numbered capture groups.  A counted repetition
  \<^verbatim>\<open>x{2}\<close> is written as the sequence \<^verbatim>\<open>xx\<close>, as Go's parser expands it.
\<close>

datatype rx =
    Lit string
  | Chars "char \<Rightarrow> bool"
  | Seq rx rx
  | Alt rx rx
  | Plus rx
  | Group nat rx

type_synonym caps = "nat \<rightharpoonup> string"

text \<open>
  \<open>run r (cp, s)\<close> lists every way \<open>r\<close> can match a prefix of \<open>s\<close>, as the captures and the
  unread rest, in the order a backtracking search meets them: the left alternative before the
  right one, one more iteration of \<^verbatim>\<open>+\<close> before stopping.  Go's \<^verbatim>\<open>regexp\<close> promises the match
  that such a search finds first (leftmost-first), which is the head of the list.
\<close>

function run :: "rx \<Rightarrow> caps \<times> string \<Rightarrow> (caps \<times> string) list" where
  "run (Lit w) st = (case cutPrefix w (snd st) of Some r \<Rightarrow> [(fst st, r)] | None \<Rightarrow> [])"
| "run (Chars P) st =
     (case snd st of [] \<Rightarrow> [] | c # cs \<Rightarrow> if P c then [(fst st, cs)] else [])"
| "run (Seq a b) st = concat (map (run b) (run a st))"
| "run (Alt a b) st = run a st @ run b st"
| "run (Plus a) st =
     concat (map (\<lambda>st'. (if length (snd st') < length (snd st) then run (Plus a) st' else [])
                          @ [st'])
                 (run a st))"
| "run (Group n a) st =
     map (\<lambda>st'. ((fst st')(n \<mapsto> take (length (snd st) - length (snd st')) (snd st)), snd st'))
         (run a st)"
  by pat_completeness auto
termination
  by (relation "inv_image (less_than <*lex*> less_than) (\<lambda>(r, st). (size r, length (snd st)))")
     auto

declare run.simps(5) [simp del]

definition grp :: "caps \<Rightarrow> nat \<Rightarrow> string" where
  "grp cp n = (case cp n of Some t \<Rightarrow> t | None \<Rightarrow> [])"

text \<open>
  \<^verbatim>\<open>FindStringSubmatch\<close>: the captures of the leftmost match, searching from each position in
  turn; \<open>None\<close> is Go's \<^verbatim>\<open>nil\<close> slice.  Group 0 is the matched text.
\<close>

fun findSubmatch :: "rx \<Rightarrow> string \<Rightarrow> caps option" where
  "findSubmatch re [] =
     (case run re (Map.empty, []) of [] \<Rightarrow> None | st # _ \<Rightarrow> Some ((fst st)(0 \<mapsto> [])))"
| "findSubmatch re (c # cs) =
     (case run re (Map.empty, c # cs) of
        [] \<Rightarrow> findSubmatch re cs
      | st # _ \<Rightarrow> Some ((fst st)(0 \<mapsto> take (length (c # cs) - length (snd st)) (c # cs))))"

text \<open>
  The loop shared by \<^verbatim>\<open>ReplaceAllStringFunc\<close> and \<^verbatim>\<open>ReplaceAllString\<close>: copy the text up to
  the leftmost match, append the replacement, and search again behind the match.  The patterns
  of this program cannot match the empty string (lemmas \<open>run_parent_consumes\<close> and
  \<open>run_numbered_consumes\<close>), so the library's special treatment of empty matches is left
  out: a match that reads nothing is stepped over like no match.
\<close>

function replaceAll :: "rx \<Rightarrow> (caps \<Rightarrow> string \<Rightarrow> string) \<Rightarrow> string \<Rightarrow> string" where
  "replaceAll re repl [] = []"
| "replaceAll re repl (c # cs) =
     (case run re (Map.empty, c # cs) of
        [] \<Rightarrow> c # replaceAll re repl cs
      | st # _ \<Rightarrow>
          if length (snd st) \<le> length cs
          then repl (fst st) (take (length (c # cs) - length (snd st)) (c # cs))
               @ replaceAll re repl (snd st)
          else c # replaceAll re repl cs)"
  by pat_completeness auto
termination
  by (relation "measure (\<lambda>(re, repl, s). length s)") auto

section \<open>The link rewriter\<close>

definition notQuote :: rx where
  "notQuote = Chars (\<lambda>c. c \<noteq> dq)"

definition digit :: rx where
  "digit = Chars (\<lambda>c. c \<in> set ''0123456789'')"

text \<open>\<^verbatim>\<open>href="\.\./(README\.md|exercises/([^"]+)\.md)"\<close>\<close>

definition re_parent :: rx where
  \<open>re_parent =
     Seq (Lit ''href="../'')
       (Seq (Group 1 (Alt (Lit ''README.md'')
                          (Seq (Lit ''exercises/'') (Seq (Group 2 (Plus notQuote)) (Lit ''.md'')))))
            (Lit ''"''))\<close>

text \<open>\<^verbatim>\<open>exercises/([^"]+)\.md\<close>\<close>

definition re_exercises :: rx where
  "re_exercises = Seq (Lit ''exercises/'') (Seq (Group 1 (Plus notQuote)) (Lit ''.md''))"

text \<open>\<^verbatim>\<open>href="([0-9]{2}-[^"]+)\.md"\<close>\<close>

definition re_numbered :: rx where
  \<open>re_numbered =
     Seq (Lit ''href="'')
       (Seq (Group 1 (Seq digit (Seq digit (Seq (Lit ''-'') (Plus notQuote)))))
            (Lit ''.md"''))\<close>

text \<open>
  The function handed to \<^verbatim>\<open>ReplaceAllStringFunc\<close>.  \<^verbatim>\<open>len(matches) > 1\<close> holds for every
  non-nil result, which has one entry per group and one for the whole match.
\<close>

definition rewriteParent :: "string \<Rightarrow> string" where
  \<open>rewriteParent match =
     (if contains match ''README.md'' then ''href="index.html"''
      else case findSubmatch re_exercises match of
             Some cp \<Rightarrow> ''href="'' @ grp cp 1 @ ''.html"''
           | None \<Rightarrow> match)\<close>

text \<open>
  The template \<^verbatim>\<open>href="$1.html"\<close> of \<^verbatim>\<open>ReplaceAllString\<close>: the name after \<^verbatim>\<open>$\<close> is the longest
  run of letters, digits and underscores, here \<^verbatim>\<open>1\<close>, since a dot follows.
\<close>

definition expandNumbered :: "caps \<Rightarrow> string" where
  \<open>expandNumbered cp = ''href="'' @ grp cp 1 @ ''.html"''\<close>

definition fixRelativeLinks :: "string \<Rightarrow> string" where
  "fixRelativeLinks html =
     (let html1 = replaceAll re_parent (\<lambda>cp match. rewriteParent match) html
      in replaceAll re_numbered (\<lambda>cp match. expandNumbered cp) html1)"


section \<open>The generator\<close>

subsection \<open>Data\<close>

record Exercise =
  Number :: int
  Title :: string
  Emoji :: string
  Description :: string
  Filename :: string
  Content :: string
  PrevLink :: string
  NextLink :: string

text \<open>The anonymous struct of \<^verbatim>\<open>exerciseMetadata\<close>.\<close>

record meta =
  meta_Filename :: string
  meta_Title :: string
  meta_Emoji :: string
  meta_Description :: string

text \<open>
  The list the program ships with.  Every function below takes the list as an argument, so
  that a statement about all descriptor lists can be made; \<open>exerciseMetadata\<close> is the value of
  the global variable.  Bytes outside ASCII are the UTF-8 encoding of the source text.
\<close>

definition exerciseMetadata :: "meta list" where
  \<open>exerciseMetadata =
    [
     \<lparr>meta_Filename = ''00-introduction-setup.md'',
       meta_Title = ''Introduction and Setup'',
       meta_Emoji = [CHR 0xF0, CHR 0x9F, CHR 0x8C, CHR 0xB1],
       meta_Description = ''Get started by cloning and setting up the Go source code environment.''\<rparr>,
     \<lparr>meta_Filename = ''01-compile-go-unchanged.md'',
       meta_Title = ''Compiling Go Without Changes'',
       meta_Emoji = [CHR 0xF0, CHR 0x9F, CHR 0x94, CHR 0xA8],
       meta_Description = ''Learn to build the Go toolchain from source without any modifications.''\<rparr>,
     \<lparr>meta_Filename = ''02-scanner-arrow-operator.md'',
       meta_Title = ''Adding the "=>" Arrow Operator for Goroutines'',
       meta_Emoji = [CHR 0xE2, CHR 0x9A, CHR 0xA1],
       meta_Description = ''Learn scanner/lexer modification by adding "=>" as an alternative syntax for starting goroutines.''\<rparr>,
     \<lparr>meta_Filename = ''03-parser-multiple-go.md'',
       meta_Title = ''Multiple "go" Keywords - Parser Enhancement'',
       meta_Emoji = [CHR 0xF0, CHR 0x9F, CHR 0x94, CHR 0x84],
       meta_Description = ''Learn parser modification by enabling multiple consecutive "go" keywords (go go go myFunction).''\<rparr>,
     \<lparr>meta_Filename = ''04-compiler-inlining-parameters.md'',
       meta_Title = ''Inline Parameters - Function Inlining Experiments'',
       meta_Emoji = [CHR 0xE2, CHR 0x9A, CHR 0x99, CHR 0xEF, CHR 0xB8, CHR 0x8F],
       meta_Description = ''Explore the inliner behavior by modifying function inlining parameters.''\<rparr>,
     \<lparr>meta_Filename = ''05-gofmt-ast-transformation.md'',
       meta_Title = ''gofmt Transformation - "hello" to "helo"'',
       meta_Emoji = [CHR 0xF0, CHR 0x9F, CHR 0x8E, CHR 0xA8],
       meta_Description = ''Learn about Go'' @ [CHR 0x27] @ ''s tools by modifying gofmt to modify "hello" to "helo" in code.''\<rparr>,
     \<lparr>meta_Filename = ''06-ssa-power-of-two-detector.md'',
       meta_Title = ''SSA Pass - Detecting Division by Powers of Two'',
       meta_Emoji = [CHR 0xF0, CHR 0x9F, CHR 0x94, CHR 0x8D],
       meta_Description = ''Create a custom SSA compiler pass that detects division operations by powers of two that could be optimized to bit shifts.''\<rparr>,
     \<lparr>meta_Filename = ''07-runtime-patient-go.md'',
       meta_Title = ''Patient Go - Making Go Wait for Goroutines'',
       meta_Emoji = [CHR 0xF0, CHR 0x9F, CHR 0x95, CHR 0xB0, CHR 0xEF, CHR 0xB8, CHR 0x8F],
       meta_Description = ''Modify the Go runtime to wait for all goroutines to complete before program termination.''\<rparr>,
     \<lparr>meta_Filename = ''08-goroutine-sleep-detective.md'',
       meta_Title = ''Goroutine Sleep Detective - Runtime State Monitoring'',
       meta_Emoji = [CHR 0xF0, CHR 0x9F, CHR 0x95, CHR 0xB5, CHR 0xEF, CHR 0xB8, CHR 0x8F, CHR 0xE2, CHR 0x80, CHR 0x8D, CHR 0xE2, CHR 0x99, CHR 0x82, CHR 0xEF, CHR 0xB8, CHR 0x8F],
       meta_Description = ''Add logging to the Go scheduler to monitor goroutines going to sleep.''\<rparr>,
     \<lparr>meta_Filename = ''09-predictable-select.md'',
       meta_Title = ''Predictable Select - Removing Randomness from Go'' @ [CHR 0x27] @ ''s Select Statement'',
       meta_Emoji = [CHR 0xF0, CHR 0x9F, CHR 0x8E, CHR 0xAF],
       meta_Description = ''Modify Go'' @ [CHR 0x27] @ ''s select statement implementation to be deterministic instead of random.''\<rparr>,
     \<lparr>meta_Filename = ''10-java-style-stack-traces.md'',
       meta_Title = ''Java-Style Stack Traces - Making Go Panics Look Familiar'',
       meta_Emoji = [CHR 0xE2, CHR 0x98, CHR 0x95],
       meta_Description = ''Transform Go'' @ [CHR 0x27] @ ''s verbose stack traces into Java-style formatting.''\<rparr>
    ]\<close>

subsection \<open>The libraries and the operating system\<close>

text \<open>
  What the program calls but does not define.  \<open>library\<close> holds the pure functions and
  constants: \<^verbatim>\<open>filepath.Join\<close>, \<^verbatim>\<open>blackfriday.Run\<close> with the renderer and extensions of
  \<^verbatim>\<open>markdownToHTML\<close>, whether \<^verbatim>\<open>Parse\<close> accepts a template constant, what \<^verbatim>\<open>html/template\<close>
  prints for \<^verbatim>\<open>exerciseTemplate\<close> on an \<^verbatim>\<open>Exercise\<close>, its escapers for text and for an
  \<^verbatim>\<open>href\<close> attribute, its decimal printing of an \<^verbatim>\<open>int\<close>, the literal text of \<^verbatim>\<open>indexTemplate\<close>
  around its actions, and the constant \<^verbatim>\<open>cssTemplate\<close>, which is declared in a file that is
  not part of the sources at hand.
\<close>

record library =
  pathJoin :: "string \<Rightarrow> string \<Rightarrow> string"
  blackfriday :: "string \<Rightarrow> string"
  parses :: "string \<Rightarrow> bool"
  exerciseTemplate :: "Exercise \<Rightarrow> string"
  escapeText :: "string \<Rightarrow> string"
  escapeHref :: "string \<Rightarrow> string"
  printInt :: "int \<Rightarrow> string"
  indexHead :: string
  indexMiddle :: string
  indexTail :: string
  cssTemplate :: string

text \<open>
  \<^verbatim>\<open>os.WriteFile\<close> opens the file, which creates or truncates it, writes the data and closes
  the file; it fails either before the file is opened or after, and in both cases its error
  carries the path it was given.
\<close>

datatype writing = NotOpened | NotWritten | Written

text \<open>
  \<open>system\<close> answers for the file system.  \<^verbatim>\<open>os.MkdirAll\<close> gives its error: \<open>None\<close> is \<^verbatim>\<open>nil\<close>,
  and \<open>Some p\<close> an error that carries the path \<open>p\<close> of the directory that could not be made,
  which is the path it was given or one of its parents.  \<^verbatim>\<open>os.ReadFile\<close> gives the content
  (\<open>None\<close> is an error, which carries the path it was given).  Then whether \<^verbatim>\<open>os.Create\<close>
  succeeds on a path, whether \<^verbatim>\<open>Execute\<close> gets the whole rendered text into the created file,
  and how \<^verbatim>\<open>os.WriteFile\<close> ends.
\<close>

record system =
  mkdirAll :: "string \<Rightarrow> string option"
  readFile :: "string \<Rightarrow> string option"
  create :: "string \<Rightarrow> bool"
  execute :: "string \<Rightarrow> string \<Rightarrow> bool"
  writeFile :: "string \<Rightarrow> string \<Rightarrow> writing"

subsection \<open>What a run does\<close>

text \<open>The lines printed to standard output.\<close>

datatype message =
    Generated string
  | Success
  | OutputDirectory string
  | PageCount int

text \<open>
  The errors: \<open>cause\<close> is the text \<^verbatim>\<open>fmt.Errorf\<close> puts in front of the wrapped error, with the
  path an \<^verbatim>\<open>os\<close> error carries; \<open>IndexOutOfRange\<close> is the run-time panic of a slice index.
  \<open>failure\<close> is what \<^verbatim>\<open>main\<close> prints to standard error before it exits.
\<close>

datatype cause =
    ReadingMarkdown string
  | ParsingTemplate
  | CreatingOutput string
  | ExecutingTemplate
  | WritingCSS string
  | IndexOutOfRange

datatype failure =
    CreatingOutputDirectory string
  | GeneratingExercise string cause
  | GeneratingIndex cause
  | CopyingCSS cause
  | Panic

text \<open>
  The effects of a run, in the order they happen: \<^verbatim>\<open>os.MkdirAll\<close> has returned without error
  and the directory is there, a file created or truncated (empty), a template's output
  written to a created file, a file opened and written by \<^verbatim>\<open>os.WriteFile\<close>, a line on standard
  output, a failure on standard error, the exit with a status.  The trace records files:
  the parents that a failing \<^verbatim>\<open>os.MkdirAll\<close> made before it failed are not events.
\<close>

datatype event =
    MadeDir string
  | Created string
  | Rendered string string
  | Wrote string string
  | Stdout message
  | Stderr failure
  | Exit int

text \<open>A Go slice index: \<open>None\<close> is the panic.\<close>

definition at :: "'a list \<Rightarrow> int \<Rightarrow> 'a option" where
  "at xs i = (if 0 \<le> i \<and> i < int (length xs) then Some (xs ! nat i) else None)"

subsection \<open>The functions of \<^verbatim>\<open>main.go\<close>\<close>

definition markdownToHTML :: "library \<Rightarrow> string \<Rightarrow> string" where
  "markdownToHTML lib markdown = fixRelativeLinks (blackfriday lib markdown)"

text \<open>
  \<^verbatim>\<open>generateExercisePage\<close>: the result is the error or the \<^verbatim>\<open>Exercise\<close>, with the events added
  to those so far.  The deferred \<^verbatim>\<open>f.Close()\<close> has no effect that is modelled.
\<close>

definition generateExercisePage ::
  "library \<Rightarrow> system \<Rightarrow> meta list \<Rightarrow> string \<Rightarrow> string \<Rightarrow> meta \<Rightarrow> int \<Rightarrow> event list
     \<Rightarrow> (cause + Exercise) \<times> event list" where
  "generateExercisePage lib sys metadata exercisesDir outputDir m index tr =
     (let mdPath = pathJoin lib exercisesDir (meta_Filename m) in
      case readFile sys mdPath of
        None \<Rightarrow> (Inl (ReadingMarkdown mdPath), tr)
      | Some content \<Rightarrow>
          let htmlContent = markdownToHTML lib content;
              htmlFilename = trimSuffix (meta_Filename m) ''.md'' @ ''.html''
          in case (if index > 0
                   then map_option (\<lambda>p. trimSuffix (meta_Filename p) ''.md'' @ ''.html'')
                          (at metadata (index - 1))
                   else Some ''index.html'') of
               None \<Rightarrow> (Inl IndexOutOfRange, tr)
             | Some prevLink \<Rightarrow>
          case (if index < int (length metadata) - 1
                then map_option (\<lambda>n. trimSuffix (meta_Filename n) ''.md'' @ ''.html'')
                       (at metadata (index + 1))
                else Some []) of
               None \<Rightarrow> (Inl IndexOutOfRange, tr)
             | Some nextLink \<Rightarrow>
          let exercise = \<lparr>Number = index, Title = meta_Title m, Emoji = meta_Emoji m,
                            Description = meta_Description m, Filename = htmlFilename,
                            Content = htmlContent, PrevLink = prevLink, NextLink = nextLink\<rparr>
          in if \<not> parses lib ''exercise'' then (Inl ParsingTemplate, tr)
             else
               let outputPath = pathJoin lib outputDir htmlFilename in
               if \<not> create sys outputPath then (Inl (CreatingOutput outputPath), tr)
               else if \<not> execute sys outputPath (exerciseTemplate lib exercise)
               then (Inl ExecutingTemplate, tr @ [Created outputPath])
               else (Inr exercise,
                     tr @ [Created outputPath,
                           Rendered outputPath (exerciseTemplate lib exercise),
                           Stdout (Generated htmlFilename)]))"

text \<open>
  \<^verbatim>\<open>indexTemplate\<close>: its text is fixed but for \<^verbatim>\<open>{{len .Exercises}}\<close> and the block between
  \<^verbatim>\<open>{{range .Exercises}}\<close> and \<^verbatim>\<open>{{end}}\<close>, printed once per element in the order of the slice.
\<close>

definition exerciseCard :: "library \<Rightarrow> Exercise \<Rightarrow> string" where
  \<open>exerciseCard lib e =
     [CHR 0x0A] @ replicate 16 CHR '' '' @ ''<div class="exercise-card">''
     @ [CHR 0x0A] @ replicate 20 CHR '' '' @ ''<div class="exercise-number">Exercise ''
     @ printInt lib (Number e) @ ''</div>''
     @ [CHR 0x0A] @ replicate 20 CHR '' '' @ ''<h3>'' @ escapeText lib (Emoji e)
     @ '' <a href="'' @ escapeHref lib (Filename e) @ ''">'' @ escapeText lib (Title e)
     @ ''</a></h3>''
     @ [CHR 0x0A] @ replicate 20 CHR '' '' @ ''<p>'' @ escapeText lib (Description e) @ ''</p>''
     @ [CHR 0x0A] @ replicate 16 CHR '' '' @ ''</div>''
     @ [CHR 0x0A] @ replicate 16 CHR '' ''\<close>

definition indexTemplate :: "library \<Rightarrow> Exercise list \<Rightarrow> string" where
  "indexTemplate lib exercises =
     indexHead lib @ printInt lib (int (length exercises)) @ indexMiddle lib
     @ concat (map (exerciseCard lib) exercises) @ indexTail lib"

definition generateIndexPage ::
  "library \<Rightarrow> system \<Rightarrow> string \<Rightarrow> Exercise list \<Rightarrow> event list \<Rightarrow> cause option \<times> event list" where
  "generateIndexPage lib sys outputDir exercises tr =
     (if \<not> parses lib ''index'' then (Some ParsingTemplate, tr)
      else
        let outputPath = pathJoin lib outputDir ''index.html'' in
        if \<not> create sys outputPath then (Some (CreatingOutput outputPath), tr)
        else if \<not> execute sys outputPath (indexTemplate lib exercises)
        then (Some ExecutingTemplate, tr @ [Created outputPath])
        else (None,
              tr @ [Created outputPath,
                    Rendered outputPath (indexTemplate lib exercises),
                    Stdout (Generated ''index.html'')]))"

definition copyCSSFile ::
  "library \<Rightarrow> system \<Rightarrow> string \<Rightarrow> event list \<Rightarrow> cause option \<times> event list" where
  "copyCSSFile lib sys outputDir tr =
     (let cssContent = cssTemplate lib;
          outputPath = pathJoin lib outputDir ''style.css''
      in case writeFile sys outputPath cssContent of
           NotOpened \<Rightarrow> (Some (WritingCSS outputPath), tr)
         | NotWritten \<Rightarrow> (Some (WritingCSS outputPath), tr @ [Created outputPath])
         | Written \<Rightarrow> (None, tr @ [Wrote outputPath cssContent, Stdout (Generated ''style.css'')]))"

text \<open>
  The loop of \<^verbatim>\<open>main\<close> over \<^verbatim>\<open>exerciseMetadata\<close>: \<open>i\<close> is the index of the head of the rest of
  the list, \<open>exercises\<close> the slice appended to so far.
\<close>

fun generatePages ::
  "library \<Rightarrow> system \<Rightarrow> meta list \<Rightarrow> string \<Rightarrow> string \<Rightarrow> int \<Rightarrow> meta list \<Rightarrow> Exercise list
     \<Rightarrow> event list \<Rightarrow> (failure + Exercise list) \<times> event list" where
  "generatePages lib sys metadata exercisesDir outputDir i [] exercises tr = (Inr exercises, tr)"
| "generatePages lib sys metadata exercisesDir outputDir i (m # rest) exercises tr =
     (case generateExercisePage lib sys metadata exercisesDir outputDir m i tr of
        (Inl IndexOutOfRange, tr') \<Rightarrow> (Inl Panic, tr')
      | (Inl err, tr') \<Rightarrow> (Inl (GeneratingExercise (meta_Filename m) err), tr')
      | (Inr exercise, tr') \<Rightarrow>
          generatePages lib sys metadata exercisesDir outputDir (i + 1) rest
            (exercises @ [exercise]) tr')"

text \<open>
  \<^verbatim>\<open>main\<close>, after the flags are parsed: the result is the whole trace.  \<^verbatim>\<open>os.Exit(1)\<close> ends it
  after an error message, a panic ends it with status 2, and a run that returns from \<^verbatim>\<open>main\<close>
  ends with the three lines of the summary.
\<close>

definition main :: "library \<Rightarrow> system \<Rightarrow> meta list \<Rightarrow> string \<Rightarrow> string \<Rightarrow> event list" where
  "main lib sys metadata exercisesDir outputDir =
     (case mkdirAll sys outputDir of
        Some p \<Rightarrow> [Stderr (CreatingOutputDirectory p), Exit 1]
      | None \<Rightarrow>
        case generatePages lib sys metadata exercisesDir outputDir 0 metadata [] [MadeDir outputDir] of
          (Inl Panic, tr) \<Rightarrow> tr @ [Stderr Panic, Exit 2]
        | (Inl err, tr) \<Rightarrow> tr @ [Stderr err, Exit 1]
        | (Inr exercises, tr) \<Rightarrow>
            (case generateIndexPage lib sys outputDir exercises tr of
               (Some err, tr') \<Rightarrow> tr' @ [Stderr (GeneratingIndex err), Exit 1]
             | (None, tr') \<Rightarrow>
                 (case copyCSSFile lib sys outputDir tr' of
                    (Some err, tr'') \<Rightarrow> tr'' @ [Stderr (CopyingCSS err), Exit 1]
                  | (None, tr'') \<Rightarrow>
                      tr'' @ [Stdout Success, Stdout (OutputDirectory outputDir),
                              Stdout (PageCount (int (length exercises)))])))"


section \<open>Notions used in the statements and proofs\<close>

subsection \<open>Links in a fragment\<close>

text \<open>
  \<open>href_split u = Some (V, r)\<close> says that \<open>u\<close> starts with \<^verbatim>\<open>href="\<close>, the value \<open>V\<close> up to the
  next double quote, and that quote, and that \<open>r\<close> is what follows.
\<close>

definition href_split :: "string \<Rightarrow> (string \<times> string) option" where
  \<open>href_split u =
     (case cutPrefix ''href="'' u of
        None \<Rightarrow> None
      | Some v \<Rightarrow> if dq \<in> set v
                  then Some (takeWhile (\<lambda>c. c \<noteq> dq) v, tl (dropWhile (\<lambda>c. c \<noteq> dq) v))
                  else None)\<close>

text \<open>
  The link values the two patterns of \<^verbatim>\<open>fixRelativeLinks\<close> accept (lemmas \<open>run_parent_sound\<close>,
  \<open>run_parent_complete\<close>, \<open>run_numbered_sound\<close> and \<open>run_numbered_complete\<close>): the overview
  or a file under \<^verbatim>\<open>../exercises/\<close> with a name of at least one character before \<^verbatim>\<open>.md\<close>; two
  digits, a dash and at least one character before \<^verbatim>\<open>.md\<close>.  Both end in \<^verbatim>\<open>.md\<close>.
\<close>

definition parentTarget :: "string \<Rightarrow> bool" where
  "parentTarget V \<longleftrightarrow>
     V = ''../README.md'' \<or> (\<exists>X. X \<noteq> [] \<and> V = ''../exercises/'' @ X @ ''.md'')"

definition numberedTarget :: "string \<Rightarrow> bool" where
  "numberedTarget V \<longleftrightarrow>
     (\<exists>d1 d2 Z. V = d1 # d2 # CHR ''-'' # Z @ ''.md'' \<and> d1 \<in> set ''0123456789''
        \<and> d2 \<in> set ''0123456789'' \<and> Z \<noteq> [])"

definition endsMd :: "string \<Rightarrow> bool" where
  "endsMd V \<longleftrightarrow> (\<exists>W. V = W @ ''.md'')"

text \<open>
  Rewriting link by link: from the left, a link whose value is \<open>good\<close> gets the value \<open>h V\<close>
  followed by \<^verbatim>\<open>.html\<close> and the scan goes on behind it; everything else is copied.  Each pass of
  \<^verbatim>\<open>fixRelativeLinks\<close> is such a rewrite (lemmas \<open>replaceAll_parent\<close> and
  \<open>replaceAll_numbered\<close>).
\<close>

function relink :: "(string \<Rightarrow> bool) \<Rightarrow> (string \<Rightarrow> string) \<Rightarrow> string \<Rightarrow> string" where
  "relink good h [] = []"
| \<open>relink good h (c # cs) =
     (case href_split (c # cs) of
        None \<Rightarrow> c # relink good h cs
      | Some (V, r) \<Rightarrow>
          if good V then ''href="'' @ h V @ ''.html"'' @ relink good h r
          else c # relink good h cs)\<close>
  by pat_completeness auto
termination
proof (relation "measure (\<lambda>(good, h, s). length s)", goal_cases)
  case (3 good h c cs x2 x y)
  have cut: "cutPrefix w s = Some r \<Longrightarrow> length r \<le> length s" for w s r
    by (induction w s rule: cutPrefix.induct) (auto split: if_splits)
  have dw: "length (tl (dropWhile P v)) \<le> length v" for P and v :: string
    using length_dropWhile_le [of P v] by simp
  from 3 obtain v where \<open>cutPrefix ''href="'' (c # cs) = Some v\<close> "y = tl (dropWhile (\<lambda>c. c \<noteq> dq) v)"
    by (auto simp: href_split_def split: option.splits if_splits)
  then have "length y \<le> length cs"
    using dw [of "\<lambda>c. c \<noteq> dq" v] cut [of \<open>''ref="''\<close> cs v] by (auto split: if_splits)
  then show ?case by simp
qed auto

declare relink.simps(2) [simp del]

text \<open>No link with a \<open>good\<close> value starts anywhere in the fragment.\<close>

definition nohit :: "(string \<Rightarrow> bool) \<Rightarrow> string \<Rightarrow> bool" where
  "nohit good s \<longleftrightarrow> (\<forall>a u V r. s = a @ u \<longrightarrow> href_split u = Some (V, r) \<longrightarrow> \<not> good V)"

text \<open>
  The new value, without \<^verbatim>\<open>.html\<close>, that each pass gives a link it matches: for the first
  pass \<^verbatim>\<open>index\<close> if the matched text contains \<^verbatim>\<open>README.md\<close> and else the name between
  \<^verbatim>\<open>../exercises/\<close> and \<^verbatim>\<open>.md\<close>; for the second pass the value without \<^verbatim>\<open>.md\<close>.
\<close>

definition parentStem :: "string \<Rightarrow> string" where
  \<open>parentStem V =
     (if contains (''href="'' @ V @ ''"'') ''README.md'' then ''index''
      else drop 13 (take (length V - 3) V))\<close>

definition numberedStem :: "string \<Rightarrow> string" where
  "numberedStem V = take (length V - 3) V"

text \<open>
  \<^verbatim>\<open>MatchString\<close>: whether the pattern matches anywhere in the string.  The program does not
  call it; it states that a fragment holds no link of a kind.
\<close>

fun matchString :: "rx \<Rightarrow> string \<Rightarrow> bool" where
  "matchString re [] = (case run re (Map.empty, []) of [] \<Rightarrow> False | st # _ \<Rightarrow> True)"
| "matchString re (c # cs) =
     (case run re (Map.empty, c # cs) of [] \<Rightarrow> matchString re cs | st # _ \<Rightarrow> True)"

subsection \<open>Descriptors and their pages\<close>

text \<open>
  The output file name of a descriptor, as \<^verbatim>\<open>generateExercisePage\<close> computes it in three places:
  the source file name without a trailing \<^verbatim>\<open>.md\<close>, followed by \<^verbatim>\<open>.html\<close>.
\<close>

definition htmlName :: "meta \<Rightarrow> string" where
  "htmlName m = trimSuffix (meta_Filename m) ''.md'' @ ''.html''"

text \<open>The paths of the source and of the page of descriptor \<open>k\<close>, of the index and of the stylesheet.\<close>

definition sourcePath :: "library \<Rightarrow> meta list \<Rightarrow> string \<Rightarrow> nat \<Rightarrow> string" where
  "sourcePath lib metas exercisesDir k = pathJoin lib exercisesDir (meta_Filename (metas ! k))"

definition pagePath :: "library \<Rightarrow> meta list \<Rightarrow> string \<Rightarrow> nat \<Rightarrow> string" where
  "pagePath lib metas outputDir k = pathJoin lib outputDir (htmlName (metas ! k))"

definition indexPath :: "library \<Rightarrow> string \<Rightarrow> string" where
  "indexPath lib outputDir = pathJoin lib outputDir ''index.html''"

definition cssPath :: "library \<Rightarrow> string \<Rightarrow> string" where
  "cssPath lib outputDir = pathJoin lib outputDir ''style.css''"


text \<open>
  The \<^verbatim>\<open>Exercise\<close> that \<^verbatim>\<open>generateExercisePage\<close> builds for descriptor \<open>k\<close> (lemma
  \<open>generateExercisePage_eq\<close>), the text of its page, the events of producing it, whether every
  step of producing it succeeds, the error otherwise, and the events an unsuccessful attempt
  leaves behind.
\<close>

definition composed :: "library \<Rightarrow> system \<Rightarrow> meta list \<Rightarrow> string \<Rightarrow> nat \<Rightarrow> Exercise" where
  "composed lib sys metas exercisesDir k =
     \<lparr>Number = int k, Title = meta_Title (metas ! k), Emoji = meta_Emoji (metas ! k),
      Description = meta_Description (metas ! k), Filename = htmlName (metas ! k),
      Content = markdownToHTML lib
                  (case readFile sys (sourcePath lib metas exercisesDir k) of
                     Some content \<Rightarrow> content | None \<Rightarrow> []),
      PrevLink = (if k = 0 then ''index.html'' else htmlName (metas ! (k - 1))),
      NextLink = (if Suc k < length metas then htmlName (metas ! Suc k) else [])\<rparr>"

definition pageText :: "library \<Rightarrow> system \<Rightarrow> meta list \<Rightarrow> string \<Rightarrow> nat \<Rightarrow> string" where
  "pageText lib sys metas exercisesDir k = exerciseTemplate lib (composed lib sys metas exercisesDir k)"

definition pageEvents ::
  "library \<Rightarrow> system \<Rightarrow> meta list \<Rightarrow> string \<Rightarrow> string \<Rightarrow> nat \<Rightarrow> event list" where
  "pageEvents lib sys metas exercisesDir outputDir k =
     [Created (pagePath lib metas outputDir k),
      Rendered (pagePath lib metas outputDir k) (pageText lib sys metas exercisesDir k),
      Stdout (Generated (htmlName (metas ! k)))]"

definition pageOk :: "library \<Rightarrow> system \<Rightarrow> meta list \<Rightarrow> string \<Rightarrow> string \<Rightarrow> nat \<Rightarrow> bool" where
  "pageOk lib sys metas exercisesDir outputDir k \<longleftrightarrow>
     (case readFile sys (sourcePath lib metas exercisesDir k) of None \<Rightarrow> False | Some content \<Rightarrow> True)
     \<and> parses lib ''exercise''
     \<and> create sys (pagePath lib metas outputDir k)
     \<and> execute sys (pagePath lib metas outputDir k) (pageText lib sys metas exercisesDir k)"

definition pageCause :: "library \<Rightarrow> system \<Rightarrow> meta list \<Rightarrow> string \<Rightarrow> string \<Rightarrow> nat \<Rightarrow> cause" where
  "pageCause lib sys metas exercisesDir outputDir k =
     (case readFile sys (sourcePath lib metas exercisesDir k) of
        None \<Rightarrow> ReadingMarkdown (sourcePath lib metas exercisesDir k)
      | Some content \<Rightarrow>
          if \<not> parses lib ''exercise'' then ParsingTemplate
          else if \<not> create sys (pagePath lib metas outputDir k)
          then CreatingOutput (pagePath lib metas outputDir k)
          else ExecutingTemplate)"

definition pageLeft :: "library \<Rightarrow> system \<Rightarrow> meta list \<Rightarrow> string \<Rightarrow> string \<Rightarrow> nat \<Rightarrow> event list" where
  "pageLeft lib sys metas exercisesDir outputDir k =
     (if pageCause lib sys metas exercisesDir outputDir k = ExecutingTemplate
      then [Created (pagePath lib metas outputDir k)] else [])"

text \<open>
  The first descriptor whose page fails, the trace up to page \<open>k\<close>, the slice handed to the
  index template, and the events of writing the index.
\<close>

definition firstBad :: "library \<Rightarrow> system \<Rightarrow> meta list \<Rightarrow> string \<Rightarrow> string \<Rightarrow> nat option" where
  "firstBad lib sys metas exercisesDir outputDir =
     List.find (\<lambda>k. \<not> pageOk lib sys metas exercisesDir outputDir k) [0..<length metas]"

definition pagesDone ::
  "library \<Rightarrow> system \<Rightarrow> meta list \<Rightarrow> string \<Rightarrow> string \<Rightarrow> nat \<Rightarrow> event list" where
  "pagesDone lib sys metas exercisesDir outputDir k =
     MadeDir outputDir # concat (map (pageEvents lib sys metas exercisesDir outputDir) [0..<k])"

definition allComposed :: "library \<Rightarrow> system \<Rightarrow> meta list \<Rightarrow> string \<Rightarrow> Exercise list" where
  "allComposed lib sys metas exercisesDir = map (composed lib sys metas exercisesDir) [0..<length metas]"

definition indexEvents :: "library \<Rightarrow> system \<Rightarrow> meta list \<Rightarrow> string \<Rightarrow> string \<Rightarrow> event list" where
  "indexEvents lib sys metas exercisesDir outputDir =
     [Created (indexPath lib outputDir),
      Rendered (indexPath lib outputDir) (indexTemplate lib (allComposed lib sys metas exercisesDir)),
      Stdout (Generated ''index.html'')]"

subsection \<open>Reading a trace\<close>

text \<open>
  A run reports success when it prints the summary.  \<open>quiet\<close> says that a trace holds no error
  message, no exit and no summary.  \<open>writtenPaths\<close> is the set of files a trace creates or
  writes; \<open>filesAfter disk tr\<close> is the content of the files after the trace, starting from
  \<open>disk\<close> (a created file is empty until it is written; what a failed \<^verbatim>\<open>Execute\<close> or a failed
  write leaves in the file it had opened is not recorded, and \<open>filesAfter\<close> is used for runs
  that report success).
\<close>

definition succeeded :: "event list \<Rightarrow> bool" where
  "succeeded tr \<longleftrightarrow> Stdout Success \<in> set tr"

definition quiet :: "event list \<Rightarrow> bool" where
  "quiet tr \<longleftrightarrow> list_all (\<lambda>e. case e of Stderr f \<Rightarrow> False | Exit c \<Rightarrow> False
                             | Stdout m \<Rightarrow> m \<noteq> Success | _ \<Rightarrow> True) tr"

fun touched :: "event \<Rightarrow> string list" where
  "touched (Created p) = [p]"
| "touched (Rendered p text) = [p]"
| "touched (Wrote p text) = [p]"
| "touched (MadeDir d) = []"
| "touched (Stdout m) = []"
| "touched (Stderr f) = []"
| "touched (Exit c) = []"

definition writtenPaths :: "event list \<Rightarrow> string set" where
  "writtenPaths tr = set (concat (map touched tr))"

fun store :: "(string \<rightharpoonup> string) \<Rightarrow> event \<Rightarrow> (string \<rightharpoonup> string)" where
  "store fs (Created p) = fs(p \<mapsto> [])"
| "store fs (Rendered p text) = fs(p \<mapsto> text)"
| "store fs (Wrote p text) = fs(p \<mapsto> text)"
| "store fs (MadeDir d) = fs"
| "store fs (Stdout m) = fs"
| "store fs (Stderr f) = fs"
| "store fs (Exit c) = fs"

definition filesAfter :: "(string \<rightharpoonup> string) \<Rightarrow> event list \<Rightarrow> (string \<rightharpoonup> string)" where
  "filesAfter fs tr = foldl store fs tr"

text \<open>Every step of a run succeeds.\<close>

definition runOk :: "library \<Rightarrow> system \<Rightarrow> meta list \<Rightarrow> string \<Rightarrow> string \<Rightarrow> bool" where
  "runOk lib sys metas exercisesDir outputDir \<longleftrightarrow>
     mkdirAll sys outputDir = None
     \<and> (\<forall>k<length metas. pageOk lib sys metas exercisesDir outputDir k)
     \<and> parses lib ''index''
     \<and> create sys (indexPath lib outputDir)
     \<and> execute sys (indexPath lib outputDir) (indexTemplate lib (allComposed lib sys metas exercisesDir))
     \<and> writeFile sys (cssPath lib outputDir) (cssTemplate lib) = Written"

subsection \<open>Sample surroundings\<close>

text \<open>
  A library and file systems to run the program on: \<^verbatim>\<open>filepath.Join\<close> on a clean directory
  and a plain file name puts a slash between them; the converter and the templates are
  stand-ins.  In \<open>sampleSystem\<close> every source holds one link to the overview and every call
  succeeds; \<open>sampleMissing\<close> lacks the source of exercise 3; \<open>sampleOther\<close> differs from
  \<open>sampleSystem\<close> on a file that is no source; in \<open>sampleBlocked\<close> a file \<^verbatim>\<open>../blocker\<close> stands
  where a directory is asked for; in \<open>sampleFull\<close> the stylesheet is opened but not written.
  \<open>threeDescriptors\<close> is a short descriptor list.
\<close>

definition sampleLibrary :: library where
  "sampleLibrary =
     \<lparr>pathJoin = (\<lambda>dir name. dir @ ''/'' @ name),
      blackfriday = (\<lambda>markdown. ''<p>'' @ markdown @ ''</p>''),
      parses = (\<lambda>name. True),
      exerciseTemplate = (\<lambda>e. ''<title>'' @ Title e @ ''</title>'' @ Content e
                               @ ''<nav>'' @ PrevLink e @ '' '' @ NextLink e @ ''</nav>''),
      escapeText = (\<lambda>s. s),
      escapeHref = (\<lambda>s. s),
      printInt = (\<lambda>i. replicate (nat i) CHR ''|''),
      indexHead = ''<html>'',
      indexMiddle = '' exercises'',
      indexTail = ''</html>'',
      cssTemplate = ''body { margin: 0 }''\<rparr>"

definition sampleSystem :: system where
  \<open>sampleSystem =
     \<lparr>mkdirAll = (\<lambda>dir. None),
      readFile = (\<lambda>path. Some ''see <a href="../README.md">the overview</a>''),
      create = (\<lambda>path. True),
      execute = (\<lambda>path text. True),
      writeFile = (\<lambda>path text. Written)\<rparr>\<close>


definition sampleOther :: system where
  "sampleOther =
     sampleSystem\<lparr>readFile := (\<lambda>path. if path = ''../exercises/notes.txt'' then None
                                     else readFile sampleSystem path)\<rparr>"



definition threeDescriptors :: "meta list" where
  "threeDescriptors =
     [\<lparr>meta_Filename = ''00-setup.md'', meta_Title = ''Setup'', meta_Emoji = ''*'',
       meta_Description = ''Build it.''\<rparr>,
      \<lparr>meta_Filename = ''01-scanner.md'', meta_Title = ''Scanner'', meta_Emoji = ''+'',
       meta_Description = ''Add a token.''\<rparr>,
      \<lparr>meta_Filename = ''02-parser.md'', meta_Title = ''Parser'', meta_Emoji = ''#'',
       meta_Description = ''Parse it.''\<rparr>]"

section \<open>The link rewriter: what the patterns match\<close>

subsection \<open>The matcher\<close>

lemma cutPrefix_iff: "cutPrefix w s = Some r \<longleftrightarrow> s = w @ r"
  by (induction w s rule: cutPrefix.induct) auto

lemma cutPrefix_append [simp]: "cutPrefix w (w @ r) = Some r"
  by (simp add: cutPrefix_iff)

lemma run_plus_chars_Nil: "run (Plus (Chars P)) (cp, []) = []"
  by (simp add: run.simps(5))

lemma run_plus_chars_Cons:
  "run (Plus (Chars P)) (cp, c # cs) =
     (if P c then run (Plus (Chars P)) (cp, cs) @ [(cp, cs)] else [])"
  by (simp add: run.simps(5))

lemma run_plus_chars_set:
  "st \<in> set (run (Plus (Chars P)) (cp, s)) \<longleftrightarrow>
     fst st = cp \<and> (\<exists>X. X \<noteq> [] \<and> s = X @ snd st \<and> (\<forall>c\<in>set X. P c))"
proof (induction s)
  case Nil
  show ?case by (simp add: run_plus_chars_Nil)
next
  case (Cons c cs)
  show ?case
  proof (cases "P c")
    case False
    then show ?thesis
      by (auto simp: run_plus_chars_Cons Cons_eq_append_conv)
  next
    case True
    show ?thesis (is "?L \<longleftrightarrow> ?R")
    proof
      assume ?L
      then consider "st \<in> set (run (Plus (Chars P)) (cp, cs))" | "st = (cp, cs)"
        using True by (auto simp: run_plus_chars_Cons)
      then show ?R
      proof cases
        case 1
        then obtain X where "fst st = cp" "X \<noteq> []" "cs = X @ snd st" "\<forall>c\<in>set X. P c"
          using Cons.IH by blast
        then show ?thesis using True by (intro conjI exI [of _ "c # X"]) auto
      next
        case 2
        then show ?thesis using True by (intro conjI exI [of _ "[c]"]) auto
      qed
    next
      assume R: ?R
      then obtain X where X: "fst st = cp" "X \<noteq> []" "c # cs = X @ snd st" "\<forall>c\<in>set X. P c"
        by blast
      then obtain X' where X': "X = c # X'" "cs = X' @ snd st"
        by (cases X) auto
      show ?L
      proof (cases "X' = []")
        case True
        then have "st = (cp, cs)" using X X' by (cases st) auto
        then show ?thesis using \<open>P c\<close> by (simp add: run_plus_chars_Cons)
      next
        case False
        then have "st \<in> set (run (Plus (Chars P)) (cp, cs))"
          using Cons.IH X X' by auto
        then show ?thesis using \<open>P c\<close> by (simp add: run_plus_chars_Cons)
      qed
    qed
  qed
qed

lemma run_plus_chars_first:
  assumes "X \<noteq> []" "\<forall>c\<in>set X. P c"
  shows "\<exists>L. run (Plus (Chars P)) (cp, X @ s) = run (Plus (Chars P)) (cp, s) @ (cp, s) # L"
  using assms
proof (induction X)
  case Nil
  then show ?case by simp
next
  case (Cons c X)
  show ?case
  proof (cases "X = []")
    case True
    then show ?thesis using Cons.prems by (auto simp: run_plus_chars_Cons)
  next
    case False
    then obtain L where "run (Plus (Chars P)) (cp, X @ s) = run (Plus (Chars P)) (cp, s) @ (cp, s) # L"
      using Cons by auto
    then show ?thesis using Cons.prems by (auto simp: run_plus_chars_Cons)
  qed
qed

lemma run_Lit_set: "st' \<in> set (run (Lit w) st) \<longleftrightarrow> fst st' = fst st \<and> snd st = w @ snd st'"
  by (cases st'; cases "cutPrefix w (snd st)") (auto simp: cutPrefix_iff)

lemma run_Seq_set: "st'' \<in> set (run (Seq a b) st) \<longleftrightarrow> (\<exists>st'\<in>set (run a st). st'' \<in> set (run b st'))"
  by auto

lemma run_Group_set:
  "st' \<in> set (run (Group n a) st) \<longleftrightarrow>
     (\<exists>s1\<in>set (run a st). st' = ((fst s1)(n \<mapsto> take (length (snd st) - length (snd s1)) (snd st)), snd s1))"
  by auto

subsection \<open>Links\<close>


lemma split_at_quote:
  "dq \<notin> set C \<Longrightarrow> takeWhile (\<lambda>c. c \<noteq> dq) (C @ dq # r) = C \<and> tl (dropWhile (\<lambda>c. c \<noteq> dq) (C @ dq # r)) = r"
  by (induction C) auto

lemma href_split_iff:
  \<open>href_split u = Some (C, r) \<longleftrightarrow> u = ''href="'' @ C @ dq # r \<and> dq \<notin> set C\<close>
proof
  assume "href_split u = Some (C, r)"
  then obtain v where v: \<open>cutPrefix ''href="'' u = Some v\<close> "dq \<in> set v"
    "C = takeWhile (\<lambda>c. c \<noteq> dq) v" "r = tl (dropWhile (\<lambda>c. c \<noteq> dq) v)"
    by (auto simp: href_split_def split: option.splits if_splits)
  have "dropWhile (\<lambda>c. c \<noteq> dq) v \<noteq> []" using v(2) by (simp add: dropWhile_eq_Nil_conv)
  moreover have "hd (dropWhile (\<lambda>c. c \<noteq> dq) v) = dq"
    using hd_dropWhile [OF calculation] by simp
  ultimately have "dropWhile (\<lambda>c. c \<noteq> dq) v = dq # r"
    using v(4) by (cases "dropWhile (\<lambda>c. c \<noteq> dq) v") auto
  then have "v = C @ dq # r"
    using takeWhile_dropWhile_id [of "\<lambda>c. c \<noteq> dq" v] v(3) by simp
  moreover have "dq \<notin> set C"
    using v(3) by (auto dest: set_takeWhileD)
  ultimately show \<open>u = ''href="'' @ C @ dq # r \<and> dq \<notin> set C\<close>
    using v(1) by (simp add: cutPrefix_iff)
next
  assume a: \<open>u = ''href="'' @ C @ dq # r \<and> dq \<notin> set C\<close>
  then have \<open>cutPrefix ''href="'' u = Some (C @ dq # r)\<close>
    by (simp only: cutPrefix_iff)
  then show "href_split u = Some (C, r)"
    using a split_at_quote [of C r] by (simp add: href_split_def)
qed

subsection \<open>Matches of a pattern, piece by piece\<close>

text \<open>That a pattern can read up to a given rest, whatever the captures.\<close>


lemma ex_Lit: "\<exists>c'. (c', r) \<in> set (run (Lit w) (c, w @ r))"
  by (simp add: run_Lit_set)

lemma ex_Chars: "P x \<Longrightarrow> \<exists>c'. (c', r) \<in> set (run (Chars P) (c, x # r))"
  by (rule exI [of _ c]) simp

lemma ex_Plus:
  "X \<noteq> [] \<Longrightarrow> \<forall>x\<in>set X. P x \<Longrightarrow> \<exists>c'. (c', r) \<in> set (run (Plus (Chars P)) (c, X @ r))"
  by (simp only: run_plus_chars_set) auto

lemma ex_Group:
  "\<exists>c'. (c', r) \<in> set (run a st) \<Longrightarrow> \<exists>c'. (c', r) \<in> set (run (Group n a) st)"
  by (simp only: run_Group_set) force

lemma ex_Seq:
  "\<exists>c1. (c1, r1) \<in> set (run a st) \<Longrightarrow> (\<And>c1. \<exists>c'. (c', r) \<in> set (run b (c1, r1)))
     \<Longrightarrow> \<exists>c'. (c', r) \<in> set (run (Seq a b) st)"
  by (simp only: run_Seq_set) blast

lemma ex_Alt2: "\<exists>c'. (c', r) \<in> set (run b st) \<Longrightarrow> \<exists>c'. (c', r) \<in> set (run (Alt a b) st)"
  by (simp only: run.simps set_append Un_iff) blast

text \<open>What a match of a pattern tells about the input.\<close>


lemma Lit_D: "(c', r') \<in> set (run (Lit w) (c, s)) \<Longrightarrow> c' = c \<and> s = w @ r'"
  using run_Lit_set [of "(c', r')" w "(c, s)"] by simp

lemma Seq_D:
  "(c'', r'') \<in> set (run (Seq a b) st) \<Longrightarrow>
     \<exists>c' r'. (c', r') \<in> set (run a st) \<and> (c'', r'') \<in> set (run b (c', r'))"
  by auto

lemma Group_D:
  "(c', r') \<in> set (run (Group n a) (c, s)) \<Longrightarrow>
     \<exists>c1. (c1, r') \<in> set (run a (c, s)) \<and> c' = c1(n \<mapsto> take (length s - length r') s)"
  by auto

lemma Chars_D: "(c', r') \<in> set (run (Chars P) (c, s)) \<Longrightarrow> c' = c \<and> (\<exists>x. s = x # r' \<and> P x)"
  by (cases s) (auto split: if_splits)

lemma Plus_D:
  "(c', r') \<in> set (run (Plus (Chars P)) (c, s)) \<Longrightarrow>
     c' = c \<and> (\<exists>X. X \<noteq> [] \<and> s = X @ r' \<and> (\<forall>x\<in>set X. P x))"
  by (simp add: run_plus_chars_set)

lemma Alt_D:
  "(c', r') \<in> set (run (Alt a b) st) \<Longrightarrow> (c', r') \<in> set (run a st) \<or> (c', r') \<in> set (run b st)"
  by simp

subsection \<open>The two patterns of \<^verbatim>\<open>fixRelativeLinks\<close>\<close>

text \<open>
  Each matches exactly at a link whose value has the shape of \<open>parentTarget\<close> and of
  \<open>numberedTarget\<close>, reads exactly that link, and so never matches the empty string.
\<close>


lemma run_parent_sound:
  assumes "(c', r) \<in> set (run re_parent (cp, u))"
  shows \<open>\<exists>V. u = ''href="'' @ V @ dq # r \<and> dq \<notin> set V \<and> parentTarget V\<close>
proof -
  from Seq_D [OF assms [unfolded re_parent_def]] obtain c1 r1 where
    a: \<open>(c1, r1) \<in> set (run (Lit ''href="../'') (cp, u))\<close> and
    b: \<open>(c', r) \<in> set (run (Seq (Group 1 (Alt (Lit ''README.md'')
          (Seq (Lit ''exercises/'') (Seq (Group 2 (Plus notQuote)) (Lit ''.md'')))))
          (Lit ''"'')) (c1, r1))\<close>
    by blast
  from Seq_D [OF b] obtain c2 r2 where
    c: "(c2, r2) \<in> set (run (Group 1 (Alt (Lit ''README.md'')
          (Seq (Lit ''exercises/'') (Seq (Group 2 (Plus notQuote)) (Lit ''.md''))))) (c1, r1))" and
    d: \<open>(c', r) \<in> set (run (Lit ''"'') (c2, r2))\<close>
    by blast
  from Group_D [OF c] obtain c3 where
    e: "(c3, r2) \<in> set (run (Alt (Lit ''README.md'')
          (Seq (Lit ''exercises/'') (Seq (Group 2 (Plus notQuote)) (Lit ''.md'')))) (c1, r1))"
    by blast
  have u: \<open>u = ''href="../'' @ r1\<close> using Lit_D [OF a] by simp
  have r2: \<open>r2 = dq # r\<close> using Lit_D [OF d] by (simp add: dq_def)
  from Alt_D [OF e] show ?thesis
  proof
    assume "(c3, r2) \<in> set (run (Lit ''README.md'') (c1, r1))"
    from Lit_D [OF this] have "r1 = ''README.md'' @ r2" by simp
    then show ?thesis using u r2
      by (intro exI [of _ "''../README.md''"]) (simp add: parentTarget_def dq_def)
  next
    assume "(c3, r2) \<in> set (run (Seq (Lit ''exercises/'')
               (Seq (Group 2 (Plus notQuote)) (Lit ''.md''))) (c1, r1))"
    from Seq_D [OF this] obtain c4 r4 where
      f: "(c4, r4) \<in> set (run (Lit ''exercises/'') (c1, r1))" and
      g: "(c3, r2) \<in> set (run (Seq (Group 2 (Plus notQuote)) (Lit ''.md'')) (c4, r4))"
      by blast
    from Seq_D [OF g] obtain c5 r5 where
      h: "(c5, r5) \<in> set (run (Group 2 (Plus notQuote)) (c4, r4))" and
      i: "(c3, r2) \<in> set (run (Lit ''.md'') (c5, r5))"
      by blast
    from Group_D [OF h] obtain c6 where c6: "(c6, r5) \<in> set (run (Plus (Chars (\<lambda>c. c \<noteq> dq))) (c4, r4))"
      unfolding notQuote_def by blast
    from Plus_D [OF c6] obtain X where X: "X \<noteq> []" "r4 = X @ r5" "\<forall>x\<in>set X. x \<noteq> dq"
      by blast
    have "r1 = ''exercises/'' @ r4" using Lit_D [OF f] by simp
    moreover have "r5 = ''.md'' @ r2" using Lit_D [OF i] by simp
    ultimately show ?thesis using u r2 X
      by (intro exI [of _ "''../exercises/'' @ X @ ''.md''"]) (auto simp add: parentTarget_def dq_def)
  qed
qed

lemma run_parent_complete:
  assumes \<open>u = ''href="'' @ V @ dq # r\<close> "dq \<notin> set V" "parentTarget V"
  shows "\<exists>cp'. (cp', r) \<in> set (run re_parent (cp, u))"
  using assms(3) unfolding parentTarget_def
proof (elim disjE exE conjE)
  assume "V = ''../README.md''"
  then show ?thesis using assms(1)
    by (simp add: re_parent_def dq_def)
next
  fix X assume X: "X \<noteq> []" "V = ''../exercises/'' @ X @ ''.md''"
  then have nq: "\<forall>x\<in>set X. x \<noteq> dq" using assms(2) by auto
  have u: \<open>u = ''href="../'' @ ''exercises/'' @ X @ ''.md'' @ ''"'' @ r\<close>
    using assms(1) X by (simp add: dq_def)
  show ?thesis unfolding re_parent_def notQuote_def u
    apply (rule ex_Seq, rule ex_Lit)
    apply (rule ex_Seq, rule ex_Group, rule ex_Alt2)
     apply (rule ex_Seq, rule ex_Lit)
     apply (rule ex_Seq, rule ex_Group, rule ex_Plus [OF X(1) nq])
     apply (rule ex_Lit)
    apply (rule ex_Lit)
    done
qed

lemma run_numbered_sound:
  assumes "(c', r) \<in> set (run re_numbered (cp, u))"
  shows \<open>\<exists>C. u = ''href="'' @ C @ ''.md'' @ dq # r \<and> dq \<notin> set C \<and> numberedTarget (C @ ''.md'')
     \<and> c' = cp(1 \<mapsto> C)\<close>
proof -
  from Seq_D [OF assms [unfolded re_numbered_def]] obtain c1 r1 where
    a: \<open>(c1, r1) \<in> set (run (Lit ''href="'') (cp, u))\<close> and
    b: \<open>(c', r) \<in> set (run (Seq (Group 1 (Seq digit (Seq digit (Seq (Lit ''-'') (Plus notQuote)))))
            (Lit ''.md"'')) (c1, r1))\<close>
    by blast
  from Seq_D [OF b] obtain c2 r2 where
    c: "(c2, r2) \<in> set (run (Group 1 (Seq digit (Seq digit (Seq (Lit ''-'') (Plus notQuote)))))
            (c1, r1))" and
    d: \<open>(c', r) \<in> set (run (Lit ''.md"'') (c2, r2))\<close>
    by blast
  from Group_D [OF c] obtain c3 where
    e: "(c3, r2) \<in> set (run (Seq digit (Seq digit (Seq (Lit ''-'') (Plus notQuote)))) (c1, r1))"
    and c2: "c2 = c3(1 \<mapsto> take (length r1 - length r2) r1)"
    by blast
  from Seq_D [OF e] obtain c4 r4 where
    f: "(c4, r4) \<in> set (run digit (c1, r1))" and
    g: "(c3, r2) \<in> set (run (Seq digit (Seq (Lit ''-'') (Plus notQuote))) (c4, r4))"
    by blast
  from Seq_D [OF g] obtain c5 r5 where
    h: "(c5, r5) \<in> set (run digit (c4, r4))" and
    i: "(c3, r2) \<in> set (run (Seq (Lit ''-'') (Plus notQuote)) (c5, r5))"
    by blast
  from Seq_D [OF i] obtain c6 r6 where
    j: "(c6, r6) \<in> set (run (Lit ''-'') (c5, r5))" and
    k: "(c3, r2) \<in> set (run (Plus (Chars (\<lambda>c. c \<noteq> dq))) (c6, r6))"
    unfolding notQuote_def by blast
  have c1: "c1 = cp" and u: \<open>u = ''href="'' @ r1\<close> using Lit_D [OF a] by simp_all
  have c'c2: "c' = c2" and r2: \<open>r2 = ''.md'' @ dq # r\<close> using Lit_D [OF d] by (simp_all add: dq_def)
  obtain d1 where d1: "c4 = c1" "r1 = d1 # r4" "d1 \<in> set ''0123456789''"
    using Chars_D [OF f [unfolded digit_def]] by blast
  obtain d2 where d2: "c5 = c4" "r4 = d2 # r5" "d2 \<in> set ''0123456789''"
    using Chars_D [OF h [unfolded digit_def]] by blast
  have c6: "c6 = c5" and r5: "r5 = CHR ''-'' # r6" using Lit_D [OF j] by simp_all
  obtain Z where Z: "c3 = c6" "Z \<noteq> []" "r6 = Z @ r2" "\<forall>x\<in>set Z. x \<noteq> dq"
    using Plus_D [OF k] by blast
  have r1: "r1 = (d1 # d2 # CHR ''-'' # Z) @ r2"
    using d1 d2 r5 Z by simp
  have "take (length r1 - length r2) r1 = d1 # d2 # CHR ''-'' # Z"
    unfolding r1 by (simp add: numeral_3_eq_3)
  then have "c' = cp(1 \<mapsto> d1 # d2 # CHR ''-'' # Z)"
    using c'c2 c2 Z(1) c6 d2(1) d1(1) c1 by simp
  moreover have "dq \<notin> set (d1 # d2 # CHR ''-'' # Z)"
    using Z(4) d1(3) d2(3) by (auto simp: dq_def)
  moreover have "numberedTarget ((d1 # d2 # CHR ''-'' # Z) @ ''.md'')"
    unfolding numberedTarget_def using d1(3) d2(3) Z(2) by (intro exI [of _ d1] exI [of _ d2] exI [of _ Z]) simp
  moreover have \<open>u = ''href="'' @ (d1 # d2 # CHR ''-'' # Z) @ ''.md'' @ dq # r\<close>
    using u r1 r2 by simp
  ultimately show ?thesis by blast
qed

lemma run_numbered_complete:
  assumes \<open>u = ''href="'' @ V @ dq # r\<close> "dq \<notin> set V" "numberedTarget V"
  shows "\<exists>cp'. (cp', r) \<in> set (run re_numbered (cp, u))"
proof -
  from assms(3) obtain d1 d2 Z where V: "V = d1 # d2 # CHR ''-'' # Z @ ''.md''"
    "d1 \<in> set ''0123456789''" "d2 \<in> set ''0123456789''" "Z \<noteq> []"
    unfolding numberedTarget_def by blast
  then have nq: "\<forall>x\<in>set Z. x \<noteq> dq" using assms(2) by auto
  have u: \<open>u = ''href="'' @ d1 # d2 # ''-'' @ Z @ ''.md"'' @ r\<close>
    using assms(1) V by (simp add: dq_def)
  show ?thesis unfolding re_numbered_def notQuote_def digit_def u
    apply (rule ex_Seq, rule ex_Lit)
    apply (rule ex_Seq, rule ex_Group)
     apply (rule ex_Seq, rule ex_Chars, rule V(2))
     apply (rule ex_Seq, rule ex_Chars, rule V(3))
     apply (rule ex_Seq, rule ex_Lit)
     apply (rule ex_Plus [OF V(4) nq])
    apply (rule ex_Lit)
    done
qed

lemma run_parent_consumes:
  assumes "(c', r) \<in> set (run re_parent (cp, u))"
  shows "length r < length u"
  using run_parent_sound [OF assms] by auto

lemma run_numbered_consumes:
  assumes "(c', r) \<in> set (run re_numbered (cp, u))"
  shows "length r < length u"
  using run_numbered_sound [OF assms] by auto

section \<open>The link rewriter: rewriting link by link\<close>

subsection \<open>Steps of \<open>relink\<close>\<close>


lemma relink_copy:
  assumes "\<And>V r. href_split (c # cs) = Some (V, r) \<Longrightarrow> \<not> good V"
  shows "relink good h (c # cs) = c # relink good h cs"
  using assms by (cases "href_split (c # cs)") (auto simp: relink.simps(2))

lemma relink_None:
  "href_split (c # cs) = None \<Longrightarrow> relink good h (c # cs) = c # relink good h cs"
  by (simp add: relink.simps(2))

lemma relink_hit:
  assumes "href_split u = Some (V, r)" "good V"
  shows \<open>relink good h u = ''href="'' @ h V @ ''.html"'' @ relink good h r\<close>
proof (cases u)
  case Nil
  then show ?thesis using assms by (simp add: href_split_def)
next
  case (Cons c cs)
  then show ?thesis using assms by (simp add: relink.simps(2))
qed

lemma href_split_tail [simp]:
  \<open>href_split (CHR ''r'' # t) = None\<close> \<open>href_split (CHR ''e'' # t) = None\<close>
  \<open>href_split (CHR ''f'' # t) = None\<close> \<open>href_split (CHR ''='' # t) = None\<close>
  \<open>href_split (CHR 0x22 # t) = None\<close>
  by (simp_all add: href_split_def)

lemma href_split_href:
  \<open>href_split (''href="'' @ t) = Some (V, r) \<longleftrightarrow> t = V @ dq # r \<and> dq \<notin> set V\<close>
  by (simp only: href_split_iff same_append_eq)

lemma relink_skip_href:
  assumes "\<And>V r. t = V @ dq # r \<Longrightarrow> dq \<notin> set V \<Longrightarrow> \<not> good V"
  shows \<open>relink good h (''href="'' @ t) = ''href="'' @ relink good h t\<close>
proof -
  have \<open>relink good h (CHR ''h'' # ''ref="'' @ t) = CHR ''h'' # relink good h (''ref="'' @ t)\<close>
  proof (rule relink_copy)
    fix V r assume \<open>href_split (CHR ''h'' # ''ref="'' @ t) = Some (V, r)\<close>
    then have "t = V @ dq # r \<and> dq \<notin> set V"
      using href_split_href [of t V r] by simp
    then show "\<not> good V" using assms by blast
  qed
  then show ?thesis
    by (simp add: relink_None)
qed

lemma takeWhile_quote:
  "takeWhile (\<lambda>c. c \<noteq> dq) (A @ dq # r) = (if dq \<in> set A then takeWhile (\<lambda>c. c \<noteq> dq) A else A)"
  by (induction A) auto

lemma href_split_takeWhile:
  assumes "href_split u = Some (V, r)"
  shows "takeWhile (\<lambda>c. c \<noteq> dq) u = ''href=''"
proof -
  have \<open>u = ''href='' @ dq # V @ dq # r\<close>
    using assms by (simp add: href_split_iff dq_def)
  then show ?thesis
    by (simp only: takeWhile_quote) (simp add: dq_def)
qed

lemma relink_quotefree:
  assumes "dq \<notin> set A" "\<And>B. A \<noteq> B @ ''href=''"
  shows "relink good h (A @ dq # t) = A @ dq # relink good h t"
  using assms
proof (induction A)
  case Nil
  have "relink good h (dq # t) = dq # relink good h t"
    by (rule relink_None) (simp add: dq_def)
  then show ?case by simp
next
  case (Cons a A)
  have "href_split ((a # A) @ dq # t) = None"
  proof (rule ccontr)
    assume "href_split ((a # A) @ dq # t) \<noteq> None"
    then obtain V r where "href_split ((a # A) @ dq # t) = Some (V, r)" by auto
    from href_split_takeWhile [OF this] have "a # A = ''href=''"
      using Cons.prems(1) by (simp only: takeWhile_quote if_False)
    then show False using Cons.prems(2) [of "[]"] by simp
  qed
  then have "relink good h (a # A @ dq # t) = a # relink good h (A @ dq # t)"
    by (simp add: relink_None)
  moreover have "relink good h (A @ dq # t) = A @ dq # relink good h t"
  proof (rule Cons.IH)
    show "dq \<notin> set A" using Cons.prems(1) by simp
    show "A \<noteq> B @ ''href=''" for B using Cons.prems(2) [of "a # B"] by auto
  qed
  ultimately show ?case by simp
qed

lemma not_endsMd_html: "\<not> endsMd (W @ ''.html'')"
  unfolding endsMd_def
proof
  assume "\<exists>V. W @ ''.html'' = V @ ''.md''"
  then obtain V where "W @ ''.html'' = V @ ''.md''" ..
  then have "last (W @ ''.html'') = last (V @ ''.md'')" by simp
  then show False by simp
qed

lemma not_endsMd_href: "\<not> endsMd (W @ ''href='')"
  unfolding endsMd_def
proof
  assume "\<exists>V. W @ ''href='' = V @ ''.md''"
  then obtain V where "W @ ''href='' = V @ ''.md''" ..
  then have "last (W @ ''href='') = last (V @ ''.md'')" by simp
  then show False by simp
qed

lemma not_href_html: "W @ ''.html'' \<noteq> B @ ''href=''"
proof
  assume "W @ ''.html'' = B @ ''href=''"
  then have "last (W @ ''.html'') = last (B @ ''href='')" by simp
  then show False by simp
qed

lemma relink_block:
  assumes "dq \<notin> set W" "\<And>V. good V \<Longrightarrow> endsMd V"
  shows \<open>relink good h (''href="'' @ W @ ''.html"'' @ t) = ''href="'' @ W @ ''.html"'' @ relink good h t\<close>
proof -
  have nq: "dq \<notin> set (W @ ''.html'')" using assms(1) by (simp add: dq_def)
  have \<open>relink good h (''href="'' @ (W @ ''.html'') @ dq # t)
         = ''href="'' @ relink good h ((W @ ''.html'') @ dq # t)\<close>
  proof (rule relink_skip_href)
    fix V r assume "(W @ ''.html'') @ dq # t = V @ dq # r" "dq \<notin> set V"
    then have "takeWhile (\<lambda>c. c \<noteq> dq) ((W @ ''.html'') @ dq # t) = takeWhile (\<lambda>c. c \<noteq> dq) (V @ dq # r)"
      by simp
    then have "V = W @ ''.html''"
      using nq \<open>dq \<notin> set V\<close> by (simp only: takeWhile_quote if_False)
    then show "\<not> good V" using assms(2) not_endsMd_html by blast
  qed
  moreover have "relink good h ((W @ ''.html'') @ dq # t) = (W @ ''.html'') @ dq # relink good h t"
    using nq not_href_html by (rule relink_quotefree)
  ultimately show ?thesis by (simp add: dq_def)
qed

subsection \<open>What \<open>relink\<close> keeps\<close>


lemma relink_cases:
  obtains (copy) "\<And>V r. href_split u = Some (V, r) \<Longrightarrow> \<not> good V"
  | (hit) V r where "href_split u = Some (V, r)" "good V"
  by (cases "href_split u") auto

lemma relink_first_quote:
  "takeWhile (\<lambda>c. c \<noteq> dq) (relink good h s) = takeWhile (\<lambda>c. c \<noteq> dq) s
   \<and> (dq \<in> set (relink good h s) \<longleftrightarrow> dq \<in> set s)"
proof (induction good h s rule: relink.induct)
  case (1 good h)
  show ?case by simp
next
  case (2 good h c cs)
  show ?case
  proof (cases "c # cs" good rule: relink_cases)
    case copy
    then have r: "relink good h (c # cs) = c # relink good h cs" by (rule relink_copy)
    have "takeWhile (\<lambda>c. c \<noteq> dq) (relink good h cs) = takeWhile (\<lambda>c. c \<noteq> dq) cs
      \<and> (dq \<in> set (relink good h cs) \<longleftrightarrow> dq \<in> set cs)"
    proof (cases "href_split (c # cs)")
      case None
      then show ?thesis using 2(1) by simp
    next
      case (Some p)
      obtain V r' where p: "p = (V, r')" by (cases p)
      then have "\<not> good V" using copy Some by simp
      then show ?thesis using 2(3) [OF Some p [symmetric]] by simp
    qed
    then show ?thesis unfolding r by simp
  next
    case (hit V r)
    have u: \<open>c # cs = ''href='' @ dq # V @ dq # r\<close>
      using hit(1) by (simp add: href_split_iff dq_def)
    have \<open>relink good h (c # cs) = ''href="'' @ h V @ ''.html"'' @ relink good h r\<close>
      by (rule relink_hit) (fact hit)+
    then have \<open>relink good h (c # cs) = ''href='' @ dq # h V @ ''.html"'' @ relink good h r\<close>
      by (simp add: dq_def)
    then show ?thesis unfolding u
      by (simp only: takeWhile_quote) (simp add: dq_def)
  qed
qed

lemma split_first_quote:
  assumes "dq \<in> set t"
  shows "\<exists>r. t = takeWhile (\<lambda>c. c \<noteq> dq) t @ dq # r"
proof -
  let ?nq = "\<lambda>c. c \<noteq> dq"
  have ne: "dropWhile ?nq t \<noteq> []" using assms by (simp add: dropWhile_eq_Nil_conv)
  then have "hd (dropWhile ?nq t) = dq" using hd_dropWhile [of ?nq t] by simp
  then have "dropWhile ?nq t = dq # tl (dropWhile ?nq t)" using ne by (cases "dropWhile ?nq t") auto
  then have "t = takeWhile ?nq t @ dq # tl (dropWhile ?nq t)"
    using takeWhile_dropWhile_id [of ?nq t] by simp
  then show ?thesis ..
qed

lemma relink_keeps_miss:
  assumes copy: "\<And>V r. href_split u = Some (V, r) \<Longrightarrow> \<not> good V"
    and hit': "href_split (relink good h u) = Some (V', r')"
  shows "\<exists>r''. href_split u = Some (V', r'')"
proof -
  let ?nq = "\<lambda>c. c \<noteq> dq"
  have ru: \<open>relink good h u = ''href="'' @ V' @ dq # r'\<close> and V': "dq \<notin> set V'"
    using hit' by (simp_all add: href_split_iff)
  have "takeWhile ?nq u = ''href=''"
    using href_split_takeWhile [OF hit'] relink_first_quote [of good h u] by simp
  moreover have "dq \<in> set u"
    using relink_first_quote [of good h u] ru by simp
  ultimately obtain t where u: \<open>u = ''href="'' @ t\<close>
    using split_first_quote [of u] by (auto simp: dq_def)
  have \<open>relink good h (''href="'' @ t) = ''href="'' @ relink good h t\<close>
  proof (rule relink_skip_href)
    fix V r assume "t = V @ dq # r" "dq \<notin> set V"
    then have "href_split u = Some (V, r)" unfolding u href_split_href by simp
    then show "\<not> good V" by (rule copy)
  qed
  then have rt: "relink good h t = V' @ dq # r'"
    using ru u by simp
  have "takeWhile ?nq t = V'" "dq \<in> set t"
    using relink_first_quote [of good h t] V' unfolding rt by (simp_all add: takeWhile_quote)
  then obtain r'' where "t = V' @ dq # r''"
    using split_first_quote [of t] by auto
  then show ?thesis using V' unfolding u href_split_href by simp
qed

subsection \<open>Fragments without a link to rewrite\<close>


lemma nohit_Cons: "nohit good (c # cs) \<Longrightarrow> nohit good cs"
  unfolding nohit_def by (metis append_Cons)

lemma nohit_head: "nohit good u \<Longrightarrow> href_split u = Some (V, r) \<Longrightarrow> \<not> good V"
  unfolding nohit_def by (metis append_Nil)

lemma nohit_ConsI:
  assumes "\<And>V r. href_split (c # cs) = Some (V, r) \<Longrightarrow> \<not> good V" "nohit good cs"
  shows "nohit good (c # cs)"
  unfolding nohit_def
proof (intro allI impI)
  fix a u V r assume *: "c # cs = a @ u" "href_split u = Some (V, r)"
  show "\<not> good V"
  proof (cases a)
    case Nil
    then show ?thesis using * assms(1) by simp
  next
    case (Cons x a')
    then have "cs = a' @ u" using * by simp
    then show ?thesis using assms(2) *(2) unfolding nohit_def by blast
  qed
qed

lemma relink_nohit: "nohit good s \<Longrightarrow> relink good h s = s"
proof (induction s)
  case Nil
  show ?case by simp
next
  case (Cons c cs)
  have "relink good h (c # cs) = c # relink good h cs"
    using Cons.prems by (intro relink_copy) (rule nohit_head)
  then show ?case using Cons.IH nohit_Cons [OF Cons.prems] by simp
qed

lemma relink_fixed_nohit:
  assumes md: "\<And>V. good V \<Longrightarrow> endsMd V"
    and qf: "\<And>V. good V \<Longrightarrow> dq \<notin> set V \<Longrightarrow> dq \<notin> set (h V)"
    and fixed: "relink good h s = s"
  shows "nohit good s"
  using fixed
proof (induction s)
  case Nil
  show ?case by (simp add: nohit_def href_split_def)
next
  case (Cons c cs)
  show ?case
  proof (cases "c # cs" good rule: relink_cases)
    case copy
    then have "relink good h (c # cs) = c # relink good h cs" by (rule relink_copy)
    then have "relink good h cs = cs" using Cons.prems by simp
    then have "nohit good cs" by (rule Cons.IH)
    with copy show ?thesis by (intro nohit_ConsI)
  next
    case (hit V r)
    have u: \<open>c # cs = ''href="'' @ V @ dq # r\<close> and V: "dq \<notin> set V"
      using hit(1) by (simp_all add: href_split_iff)
    have \<open>relink good h (c # cs) = ''href="'' @ h V @ ''.html"'' @ relink good h r\<close>
      by (rule relink_hit) (fact hit)+
    then have "(h V @ ''.html'') @ dq # relink good h r = V @ dq # r"
      using Cons.prems u by (simp add: dq_def)
    then have "takeWhile (\<lambda>c. c \<noteq> dq) ((h V @ ''.html'') @ dq # relink good h r)
        = takeWhile (\<lambda>c. c \<noteq> dq) (V @ dq # r)" by simp
    moreover have "dq \<notin> set (h V @ ''.html'')" using qf [OF hit(2) V] by (simp add: dq_def)
    ultimately have "h V @ ''.html'' = V"
      using V by (simp only: takeWhile_quote if_False)
    then have False using md [OF hit(2)] not_endsMd_html [of "h V"] by simp
    then show ?thesis ..
  qed
qed

subsection \<open>Rewriting what was rewritten\<close>


lemma relink_relink:
  assumes md': "\<And>V. good' V \<Longrightarrow> endsMd V"
    and qf: "\<And>V. good V \<Longrightarrow> dq \<notin> set V \<Longrightarrow> dq \<notin> set (h V)"
    and sub: "\<And>a u V r. s = a @ u \<Longrightarrow> href_split u = Some (V, r) \<Longrightarrow> good' V \<Longrightarrow> good V"
  shows "relink good' h' (relink good h s) = relink good h s"
  using sub
proof (induction "length s" arbitrary: s rule: less_induct)
  case less
  show ?case
  proof (cases s)
    case Nil
    then show ?thesis by simp
  next
    case (Cons c cs)
    show ?thesis
    proof (cases s good rule: relink_cases)
      case copy
      then have r: "relink good h s = c # relink good h cs"
        unfolding Cons by (rule relink_copy)
      have "relink good' h' (c # relink good h cs) = c # relink good' h' (relink good h cs)"
      proof (rule relink_copy)
        fix V' r' assume "href_split (c # relink good h cs) = Some (V', r')"
        then have "href_split (relink good h s) = Some (V', r')" using r by simp
        with copy obtain r'' where h: "href_split s = Some (V', r'')"
          using relink_keeps_miss [of s good h V' r'] by blast
        show "\<not> good' V'"
        proof
          assume "good' V'"
          then have "good V'" using less.prems [of "[]" s V' r''] h by simp
          then show False using copy h by blast
        qed
      qed
      moreover have "relink good' h' (relink good h cs) = relink good h cs"
      proof (rule less.hyps)
        show "length cs < length s" using Cons by simp
        show "good V" if "cs = a @ u" "href_split u = Some (V, r)" "good' V" for a u V r
          using less.prems [of "c # a" u V r] that Cons by simp
      qed
      ultimately show ?thesis using r by simp
    next
      case (hit V r)
      have u: \<open>s = (''href="'' @ V @ [dq]) @ r\<close> and V: "dq \<notin> set V"
        using hit(1) by (simp_all add: href_split_iff)
      have r: \<open>relink good h s = ''href="'' @ h V @ ''.html"'' @ relink good h r\<close>
        by (rule relink_hit) (fact hit)+
      have \<open>relink good' h' (''href="'' @ h V @ ''.html"'' @ relink good h r)
          = ''href="'' @ h V @ ''.html"'' @ relink good' h' (relink good h r)\<close>
        using qf [OF hit(2) V] md' by (rule relink_block)
      moreover have "relink good' h' (relink good h r) = relink good h r"
      proof (rule less.hyps)
        show "length r < length s" using u by simp
        show "good W" if "r = a @ v" "href_split v = Some (W, r')" "good' W" for a v W r'
          using less.prems [of "(''href=\"'' @ V @ [dq]) @ a" v W r'] that u by simp
      qed
      ultimately show ?thesis using r by simp
    qed
  qed
qed

subsection \<open>Rewriting in front of a link\<close>


lemma relink_cut:
  assumes md: "\<And>V. good V \<Longrightarrow> endsMd V"
  shows \<open>relink good h (a @ ''href="'' @ b) = relink good h a @ relink good h (''href="'' @ b)\<close>
proof (induction "length a" arbitrary: a rule: less_induct)
  case less
  let ?b = \<open>''href="'' @ b\<close>
  show ?case
  proof (cases a)
    case Nil
    then show ?thesis by simp
  next
    case (Cons c cs)
    have ih_cs: "relink good h (cs @ ?b) = relink good h cs @ relink good h ?b"
      using less [of cs] Cons by simp
    show ?thesis
    proof (cases "href_split a")
      case (Some p)
      obtain V r where p: "p = (V, r)" by (cases p)
      have a: \<open>a = ''href="'' @ V @ dq # r\<close> and V: "dq \<notin> set V"
        using Some p by (simp_all add: href_split_iff)
      then have ab: "href_split (a @ ?b) = Some (V, r @ ?b)"
        by (simp add: href_split_iff)
      show ?thesis
      proof (cases "good V")
        case True
        have \<open>relink good h (a @ ?b) = ''href="'' @ h V @ ''.html"'' @ relink good h (r @ ?b)\<close>
          using ab True by (rule relink_hit)
        moreover have \<open>relink good h a = ''href="'' @ h V @ ''.html"'' @ relink good h r\<close>
          by (rule relink_hit) (use Some p True in auto)
        moreover have "relink good h (r @ ?b) = relink good h r @ relink good h ?b"
          using less [of r] a by simp
        ultimately show ?thesis by simp
      next
        case False
        have "relink good h (c # (cs @ ?b)) = c # relink good h (cs @ ?b)"
          by (rule relink_copy) (use ab False Cons in auto)
        moreover have "relink good h (c # cs) = c # relink good h cs"
          by (rule relink_copy) (use Some p False Cons in auto)
        ultimately show ?thesis using ih_cs Cons by simp
      qed
    next
      case None
      have "relink good h (c # (cs @ ?b)) = c # relink good h (cs @ ?b)"
      proof (rule relink_copy)
        fix V r assume h: "href_split (c # cs @ ?b) = Some (V, r)"
        have ab: \<open>a @ ''href='' @ dq # b = ''href="'' @ V @ dq # r\<close> and V: "dq \<notin> set V"
          using h Cons by (simp_all add: href_split_iff dq_def)
        have tw: "takeWhile (\<lambda>c. c \<noteq> dq) ((a @ ''href='') @ dq # b) = ''href=''"
          using href_split_takeWhile [OF h] Cons by (simp add: dq_def)
        have "dq \<in> set a"
        proof (rule ccontr)
          assume "dq \<notin> set a"
          then have "dq \<notin> set (a @ ''href='')" by (simp add: dq_def)
          then have "a @ ''href='' = ''href=''" using tw by (simp only: takeWhile_quote if_False)
          then show False using Cons by simp
        qed
        then obtain r0 where a: "a = takeWhile (\<lambda>c. c \<noteq> dq) a @ dq # r0"
          using split_first_quote by blast
        have "takeWhile (\<lambda>c. c \<noteq> dq) a = ''href=''"
          using tw \<open>dq \<in> set a\<close> by (simp add: takeWhile_quote dq_def)
        then have a': \<open>a = ''href="'' @ r0\<close> using a by (simp add: dq_def)
        have r0: "r0 @ ''href='' @ dq # b = V @ dq # r" using ab a' by simp
        have "dq \<notin> set r0"
        proof
          assume "dq \<in> set r0"
          then obtain r1 where r1: "r0 = takeWhile (\<lambda>c. c \<noteq> dq) r0 @ dq # r1"
            using split_first_quote by blast
          have "dq \<notin> set (takeWhile (\<lambda>c. c \<noteq> dq) r0)" by (auto dest: set_takeWhileD)
          then have "href_split a = Some (takeWhile (\<lambda>c. c \<noteq> dq) r0, r1)"
            using a' r1 unfolding href_split_iff by simp
          then show False using None by simp
        qed
        then have "dq \<notin> set (r0 @ ''href='')" by (simp add: dq_def)
        moreover have "takeWhile (\<lambda>c. c \<noteq> dq) ((r0 @ ''href='') @ dq # b)
            = takeWhile (\<lambda>c. c \<noteq> dq) (V @ dq # r)" using r0 by simp
        ultimately have "V = r0 @ ''href=''"
          using V by (simp only: takeWhile_quote if_False)
        then have "\<not> endsMd V"
          using not_endsMd_href by simp
        then show "\<not> good V" using md by blast
      qed
      moreover have "relink good h (c # cs) = c # relink good h cs"
        by (rule relink_None) (use None Cons in simp)
      ultimately show ?thesis using ih_cs Cons by simp
    qed
  qed
qed

section \<open>The link rewriter: the two passes\<close>

subsection \<open>The function given to \<^verbatim>\<open>ReplaceAllStringFunc\<close>\<close>


lemma run_exercises_head:
  assumes "X \<noteq> []" "dq \<notin> set X"
  shows "\<exists>L. run re_exercises (cp, ''exercises/'' @ X @ ''.md'' @ dq # t) = (cp(1 \<mapsto> X), dq # t) # L"
proof -
  define S where "S = X @ ''.md'' @ dq # t"
  have "\<forall>x\<in>set X. x \<noteq> dq" using assms(2) by auto
  from run_plus_chars_first [OF assms(1) this, of cp "''.md'' @ dq # t"]
  obtain L where L: "run (Plus (Chars (\<lambda>c. c \<noteq> dq))) (cp, S)
      = run (Plus (Chars (\<lambda>c. c \<noteq> dq))) (cp, ''.md'' @ dq # t) @ (cp, ''.md'' @ dq # t) # L"
    unfolding S_def by blast
  have small: "run (Plus (Chars (\<lambda>c. c \<noteq> dq))) (cp, ''.md'' @ dq # t)
      = [(cp, dq # t), (cp, ''d'' @ dq # t), (cp, ''md'' @ dq # t)]"
    by (simp add: run_plus_chars_Cons dq_def)
  have len: "length S = length X + (4 + length t)" by (simp add: S_def)
  have tk: "take (length X) S = X" by (simp add: S_def)
  have "run re_exercises (cp, ''exercises/'' @ S)
      = run (Seq (Group 1 (Plus (Chars (\<lambda>c. c \<noteq> dq)))) (Lit ''.md'')) (cp, S)"
    unfolding re_exercises_def notQuote_def by simp
  also have "\<dots> = (cp(1 \<mapsto> X), dq # t)
      # concat (map (run (Lit ''.md''))
          (map (\<lambda>st'. ((fst st')(1 \<mapsto> take (length S - length (snd st')) S), snd st')) L))"
    by (simp only: run.simps(3) run.simps(6) L small fst_conv snd_conv)
      (simp add: len tk dq_def)
  finally show ?thesis unfolding S_def by blast
qed

lemma findSubmatch_exercises:
  assumes "X \<noteq> []" "dq \<notin> set X"
  shows \<open>\<exists>cp. findSubmatch re_exercises (''href="../exercises/'' @ X @ ''.md"'') = Some cp
           \<and> cp 1 = Some X\<close>
proof -
  obtain L where L: "run re_exercises (Map.empty, ''exercises/'' @ X @ ''.md'' @ dq # [])
      = (Map.empty(1 \<mapsto> X), dq # []) # L"
    using run_exercises_head [OF assms] by blast
  have miss: "run re_exercises (cp, c # s) = []" if "c \<noteq> CHR ''e''" for cp c s
    using that by (simp add: re_exercises_def)
  have miss2: "run re_exercises (cp, CHR ''e'' # c # s) = []" if "c \<noteq> CHR ''x''" for cp c s
    using that by (simp add: re_exercises_def)
  have \<open>findSubmatch re_exercises (''href="../'' @ (''exercises/'' @ X @ ''.md'' @ dq # []))
      = findSubmatch re_exercises (''exercises/'' @ X @ ''.md'' @ dq # [])\<close>
    by (simp add: miss miss2)
  also have "\<dots> = Some ((Map.empty(1 \<mapsto> X))(0 \<mapsto> ''exercises/'' @ X @ ''.md''))"
    using L by simp
  finally show ?thesis by (simp add: dq_def)
qed

lemma contains_iff: "contains s sub \<longleftrightarrow> (\<exists>a b. s = a @ sub @ b)"
proof (induction s)
  case Nil
  show ?case by auto
next
  case (Cons c cs)
  show ?case (is "?L \<longleftrightarrow> ?R")
  proof
    assume ?L
    then consider r where "cutPrefix sub (c # cs) = Some r" | "contains cs sub"
      by (auto split: option.splits)
    then show ?R
    proof cases
      case 1
      then have "c # cs = [] @ sub @ r" by (simp add: cutPrefix_iff)
      then show ?thesis by blast
    next
      case 2
      then obtain a b where "cs = a @ sub @ b" using Cons.IH by blast
      then have "c # cs = (c # a) @ sub @ b" by simp
      then show ?thesis by blast
    qed
  next
    assume ?R
    then obtain a b where ab: "c # cs = a @ sub @ b" by blast
    show ?L
    proof (cases a)
      case Nil
      then have "cutPrefix sub (c # cs) = Some b" using ab by (simp add: cutPrefix_iff)
      then show ?thesis by simp
    next
      case (Cons x a')
      then have "cs = a' @ sub @ b" using ab by simp
      then have "contains cs sub" using Cons.IH by blast
      then show ?thesis by (simp split: option.splits)
    qed
  qed
qed

lemma rewriteParent_hit:
  assumes "dq \<notin> set V" "parentTarget V"
  shows \<open>rewriteParent (''href="'' @ V @ [dq]) = ''href="'' @ parentStem V @ ''.html"''\<close>
  using assms(2) unfolding parentTarget_def
proof (elim disjE exE conjE)
  assume "V = ''../README.md''"
  then show ?thesis by (simp add: rewriteParent_def parentStem_def dq_def)
next
  fix X assume X: "X \<noteq> []" "V = ''../exercises/'' @ X @ ''.md''"
  then have "dq \<notin> set X" using assms(1) by simp
  from findSubmatch_exercises [OF X(1) this] obtain cp where
    cp: \<open>findSubmatch re_exercises (''href="../exercises/'' @ X @ ''.md"'') = Some cp\<close> "cp 1 = Some X"
    by blast
  have m: \<open>''href="'' @ V @ [dq] = ''href="../exercises/'' @ X @ ''.md"''\<close>
    using X(2) by (simp add: dq_def)
  have "drop 13 (take (length V - 3) V) = X" using X(2) by simp
  then show ?thesis
    unfolding m rewriteParent_def parentStem_def
    using cp m by (simp add: grp_def dq_def)
qed

subsection \<open>Each pass rewrites link by link\<close>


lemma replaceAll_relink:
  assumes sound: "\<And>c' r u. (c', r) \<in> set (run re (Map.empty, u)) \<Longrightarrow>
      \<exists>V. href_split u = Some (V, r) \<and> good V
          \<and> repl c' (''href=\"'' @ V @ [dq]) = ''href=\"'' @ h V @ ''.html\"''"
    and complete: "\<And>u V r. href_split u = Some (V, r) \<Longrightarrow> good V \<Longrightarrow> run re (Map.empty, u) \<noteq> []"
  shows "replaceAll re repl s = relink good h s"
proof (induction "length s" arbitrary: s rule: less_induct)
  case less
  show ?case
  proof (cases s)
    case Nil
    then show ?thesis by simp
  next
    case (Cons c cs)
    have ih_cs: "replaceAll re repl cs = relink good h cs"
      using less [of cs] Cons by simp
    show ?thesis
    proof (cases s good rule: relink_cases)
      case copy
      have "run re (Map.empty, s) = []"
      proof (cases "run re (Map.empty, s)")
        case (Cons st L)
        then have "(fst st, snd st) \<in> set (run re (Map.empty, s))" by simp
        from sound [OF this] copy show ?thesis by blast
      qed simp
      then have "replaceAll re repl s = c # replaceAll re repl cs"
        unfolding Cons by simp
      moreover have "relink good h s = c # relink good h cs"
        using copy unfolding Cons by (rule relink_copy)
      ultimately show ?thesis using ih_cs by simp
    next
      case (hit V r)
      have s: \<open>s = (''href="'' @ V @ [dq]) @ r\<close>
        using hit(1) by (simp add: href_split_iff)
      obtain st L where st: "run re (Map.empty, s) = st # L"
        using complete [OF hit] by (cases "run re (Map.empty, s)") auto
      then have "(fst st, snd st) \<in> set (run re (Map.empty, s))" by simp
      from sound [OF this] hit(1)
      have r: "snd st = r"
        and rp: \<open>repl (fst st) (''href="'' @ V @ [dq]) = ''href="'' @ h V @ ''.html"''\<close>
        by auto
      have len: "length r \<le> length cs" using s Cons by auto
      have tk: \<open>take (length (c # cs) - length r) (c # cs) = ''href="'' @ V @ [dq]\<close>
        using s Cons by (metis add_diff_cancel_right' append_eq_conv_conj length_append)
      have "replaceAll re repl (c # cs)
          = repl (fst st) (take (length (c # cs) - length r) (c # cs)) @ replaceAll re repl r"
        using st r len Cons by simp
      moreover have "replaceAll re repl r = relink good h r"
        using less [of r] s by simp
      moreover have \<open>relink good h s = ''href="'' @ h V @ ''.html"'' @ relink good h r\<close>
        by (rule relink_hit) (fact hit)+
      ultimately show ?thesis using rp tk Cons by simp
    qed
  qed
qed

lemma replaceAll_parent:
  "replaceAll re_parent (\<lambda>cp match. rewriteParent match) s = relink parentTarget parentStem s"
proof (rule replaceAll_relink)
  fix c' r u assume "(c', r) \<in> set (run re_parent (Map.empty, u))"
  from run_parent_sound [OF this] obtain V where
    \<open>u = ''href="'' @ V @ dq # r\<close> "dq \<notin> set V" "parentTarget V" by blast
  then show \<open>\<exists>V. href_split u = Some (V, r) \<and> parentTarget V
      \<and> rewriteParent (''href="'' @ V @ [dq]) = ''href="'' @ parentStem V @ ''.html"''\<close>
    using rewriteParent_hit [of V] by (auto simp: href_split_iff)
next
  fix u V r assume "href_split u = Some (V, r)" "parentTarget V"
  then show "run re_parent (Map.empty, u) \<noteq> []"
    using run_parent_complete [of u V r Map.empty] by (auto simp: href_split_iff)
qed

lemma replaceAll_numbered:
  "replaceAll re_numbered (\<lambda>cp match. expandNumbered cp) s = relink numberedTarget numberedStem s"
proof (rule replaceAll_relink)
  fix c' r u assume "(c', r) \<in> set (run re_numbered (Map.empty, u))"
  from run_numbered_sound [OF this] obtain C where
    \<open>u = ''href="'' @ C @ ''.md'' @ dq # r\<close> "dq \<notin> set C" "numberedTarget (C @ ''.md'')"
    "c' = Map.empty(1 \<mapsto> C)" by blast
  then have \<open>href_split u = Some (C @ ''.md'', r) \<and> numberedTarget (C @ ''.md'')
      \<and> expandNumbered c' = ''href="'' @ numberedStem (C @ ''.md'') @ ''.html"''\<close>
    by (simp add: href_split_iff expandNumbered_def numberedStem_def grp_def dq_def)
  then show \<open>\<exists>V. href_split u = Some (V, r) \<and> numberedTarget V
      \<and> expandNumbered c' = ''href="'' @ numberedStem V @ ''.html"''\<close>
    by blast
next
  fix u V r assume "href_split u = Some (V, r)" "numberedTarget V"
  then show "run re_numbered (Map.empty, u) \<noteq> []"
    using run_numbered_complete [of u V r Map.empty] by (auto simp: href_split_iff)
qed

lemma fixRelativeLinks_relink:
  "fixRelativeLinks s = relink numberedTarget numberedStem (relink parentTarget parentStem s)"
  by (simp add: fixRelativeLinks_def replaceAll_parent replaceAll_numbered)

lemma parentTarget_md: "parentTarget V \<Longrightarrow> endsMd V"
  unfolding parentTarget_def endsMd_def
proof (elim disjE exE conjE)
  assume "V = ''../README.md''"
  then have "V = ''../README'' @ ''.md''" by simp
  then show "\<exists>W. V = W @ ''.md''" by (rule exI [of _ "''../README''"])
next
  fix X assume "V = ''../exercises/'' @ X @ ''.md''"
  then have "V = (''../exercises/'' @ X) @ ''.md''" by simp
  then show "\<exists>W. V = W @ ''.md''" by (rule exI [of _ "''../exercises/'' @ X"])
qed

lemma numberedTarget_md: "numberedTarget V \<Longrightarrow> endsMd V"
  unfolding numberedTarget_def endsMd_def
proof (elim exE conjE)
  fix d1 d2 Z assume "V = d1 # d2 # CHR ''-'' # Z @ ''.md''"
  then have "V = (d1 # d2 # CHR ''-'' # Z) @ ''.md''" by simp
  then show "\<exists>W. V = W @ ''.md''" by (rule exI [of _ "d1 # d2 # CHR ''-'' # Z"])
qed

lemma parentStem_quotefree: "dq \<notin> set V \<Longrightarrow> dq \<notin> set (parentStem V)"
  unfolding parentStem_def
  by (auto simp: dq_def dest!: in_set_dropD in_set_takeD)

lemma numberedStem_quotefree: "dq \<notin> set V \<Longrightarrow> dq \<notin> set (numberedStem V)"
  unfolding numberedStem_def by (auto dest!: in_set_takeD)

lemma relink_idem:
  assumes "\<And>V. good V \<Longrightarrow> endsMd V" "\<And>V. dq \<notin> set V \<Longrightarrow> dq \<notin> set (h V)"
  shows "relink good h (relink good h s) = relink good h s"
proof (rule relink_relink)
  show "endsMd V" if "good V" for V using that by (rule assms(1))
  show "dq \<notin> set (h V)" if "dq \<notin> set V" for V using that by (rule assms(2))
  show "good V" if "good V" for V by (rule that)
qed


subsection \<open>A link in its context\<close>


lemma relink_at_link:
  assumes "dq \<notin> set V"
  shows "href_split (''href=\"'' @ V @ dq # post) = Some (V, post)"
  using assms by (simp add: href_split_iff)

lemma relink_link_hit:
  assumes md: "\<And>V. good V \<Longrightarrow> endsMd V" and V: "dq \<notin> set V" "good V"
  shows \<open>relink good h (pre @ ''href="'' @ V @ dq # post)
           = relink good h pre @ ''href="'' @ h V @ ''.html"'' @ relink good h post\<close>
proof -
  have \<open>relink good h (''href="'' @ V @ dq # post) = ''href="'' @ h V @ ''.html"'' @ relink good h post\<close>
    using relink_at_link [OF V(1)] V(2) by (rule relink_hit)
  then show ?thesis using relink_cut [of good h pre "V @ dq # post", OF md] by simp
qed

lemma relink_link_keep:
  assumes md: "\<And>V. good V \<Longrightarrow> endsMd V" and V: "dq \<notin> set V" "\<not> good V"
  shows \<open>\<exists>post'. relink good h (pre @ ''href="'' @ V @ dq # post)
           = relink good h pre @ ''href="'' @ V @ dq # post'\<close>
proof -
  have \<open>relink good h (''href="'' @ V @ dq # post) = ''href="'' @ relink good h (V @ dq # post)\<close>
  proof (rule relink_skip_href)
    fix V' r assume "V @ dq # post = V' @ dq # r" "dq \<notin> set V'"
    then have "takeWhile (\<lambda>c. c \<noteq> dq) (V @ dq # post) = takeWhile (\<lambda>c. c \<noteq> dq) (V' @ dq # r)"
      by simp
    then have "V' = V" using V(1) \<open>dq \<notin> set V'\<close> by (simp only: takeWhile_quote if_False)
    then show "\<not> good V'" using V(2) by simp
  qed
  moreover have "takeWhile (\<lambda>c. c \<noteq> dq) (relink good h (V @ dq # post)) = V"
    "dq \<in> set (relink good h (V @ dq # post))"
    using relink_first_quote [of good h "V @ dq # post"] V(1) by (simp_all add: takeWhile_quote)
  then obtain post' where "relink good h (V @ dq # post) = V @ dq # post'"
    using split_first_quote [of "relink good h (V @ dq # post)"] by auto
  ultimately show ?thesis using relink_cut [of good h pre "V @ dq # post", OF md] by simp
qed

lemma relink_link_pass:
  assumes md: "\<And>V. good V \<Longrightarrow> endsMd V" and V: "dq \<notin> set V" "\<not> good V" "\<And>B. V \<noteq> B @ ''href=''"
  shows \<open>relink good h (pre @ ''href="'' @ V @ dq # post)
           = relink good h pre @ ''href="'' @ V @ dq # relink good h post\<close>
proof -
  have \<open>relink good h (''href="'' @ V @ dq # post) = ''href="'' @ relink good h (V @ dq # post)\<close>
  proof (rule relink_skip_href)
    fix V' r assume "V @ dq # post = V' @ dq # r" "dq \<notin> set V'"
    then have "takeWhile (\<lambda>c. c \<noteq> dq) (V @ dq # post) = takeWhile (\<lambda>c. c \<noteq> dq) (V' @ dq # r)"
      by simp
    then have "V' = V" using V(1) \<open>dq \<notin> set V'\<close> by (simp only: takeWhile_quote if_False)
    then show "\<not> good V'" using V(2) by simp
  qed
  moreover have "relink good h (V @ dq # post) = V @ dq # relink good h post"
    using V(1) V(3) by (rule relink_quotefree)
  ultimately show ?thesis using relink_cut [of good h pre "V @ dq # post", OF md] by simp
qed

lemma numbered_not_parent: "numberedTarget V \<Longrightarrow> \<not> parentTarget V"
  unfolding numberedTarget_def parentTarget_def by auto

lemma endsMd_not_href: "endsMd V \<Longrightarrow> V \<noteq> B @ ''href=''"
  using not_endsMd_href by auto

lemma fix_parent_link:
  assumes "dq \<notin> set V" "parentTarget V"
  shows \<open>fixRelativeLinks (pre @ ''href="'' @ V @ dq # post)
           = fixRelativeLinks pre @ ''href="'' @ parentStem V @ ''.html"'' @ fixRelativeLinks post\<close>
proof -
  let ?p1 = "relink parentTarget parentStem" and ?p2 = "relink numberedTarget numberedStem"
  let ?W = "parentStem V @ ''.html''"
  have \<open>?p1 (pre @ ''href="'' @ V @ dq # post) = ?p1 pre @ ''href="'' @ parentStem V @ ''.html"'' @ ?p1 post\<close>
    using parentTarget_md assms by (rule relink_link_hit)
  then have 1: \<open>?p1 (pre @ ''href="'' @ V @ dq # post) = ?p1 pre @ ''href="'' @ ?W @ dq # ?p1 post\<close>
    by (simp add: dq_def)
  have \<open>?p2 (?p1 pre @ ''href="'' @ ?W @ dq # ?p1 post) = ?p2 (?p1 pre) @ ''href="'' @ ?W @ dq # ?p2 (?p1 post)\<close>
  proof (rule relink_link_pass)
    show "endsMd V" if "numberedTarget V" for V using that by (rule numberedTarget_md)
    show "dq \<notin> set ?W" using parentStem_quotefree [OF assms(1)] by (simp add: dq_def)
    show "\<not> numberedTarget ?W" using numberedTarget_md not_endsMd_html by blast
    show "?W \<noteq> B @ ''href=''" for B by (rule not_href_html)
  qed
  then show ?thesis unfolding fixRelativeLinks_relink 1 by (simp add: dq_def)
qed

lemma fix_numbered_link:
  assumes "dq \<notin> set V" "numberedTarget V"
  shows \<open>fixRelativeLinks (pre @ ''href="'' @ V @ dq # post)
           = fixRelativeLinks pre @ ''href="'' @ numberedStem V @ ''.html"'' @ fixRelativeLinks post\<close>
proof -
  let ?p1 = "relink parentTarget parentStem" and ?p2 = "relink numberedTarget numberedStem"
  have 1: \<open>?p1 (pre @ ''href="'' @ V @ dq # post) = ?p1 pre @ ''href="'' @ V @ dq # ?p1 post\<close>
  proof (rule relink_link_pass)
    show "endsMd V" if "parentTarget V" for V using that by (rule parentTarget_md)
    show "dq \<notin> set V" by (rule assms(1))
    show "\<not> parentTarget V" using assms(2) by (rule numbered_not_parent)
    show "V \<noteq> B @ ''href=''" for B using numberedTarget_md [OF assms(2)] by (rule endsMd_not_href)
  qed
  have \<open>?p2 (?p1 pre @ ''href="'' @ V @ dq # ?p1 post)
      = ?p2 (?p1 pre) @ ''href="'' @ numberedStem V @ ''.html"'' @ ?p2 (?p1 post)\<close>
    using numberedTarget_md assms by (rule relink_link_hit)
  then show ?thesis unfolding fixRelativeLinks_relink 1 by simp
qed

lemma fix_other_link:
  assumes "dq \<notin> set V" "\<not> parentTarget V" "\<not> numberedTarget V"
  shows \<open>\<exists>post'. fixRelativeLinks (pre @ ''href="'' @ V @ dq # post)
           = fixRelativeLinks pre @ ''href="'' @ V @ dq # post'\<close>
proof -
  let ?p1 = "relink parentTarget parentStem" and ?p2 = "relink numberedTarget numberedStem"
  obtain post1 where 1: \<open>?p1 (pre @ ''href="'' @ V @ dq # post) = ?p1 pre @ ''href="'' @ V @ dq # post1\<close>
    using relink_link_keep [of parentTarget V parentStem pre post, OF parentTarget_md assms(1,2)] by blast
  obtain post2 where \<open>?p2 (?p1 pre @ ''href="'' @ V @ dq # post1) = ?p2 (?p1 pre) @ ''href="'' @ V @ dq # post2\<close>
    using relink_link_keep [of numberedTarget V numberedStem "?p1 pre" post1, OF numberedTarget_md assms(1,3)]
    by blast
  then show ?thesis unfolding fixRelativeLinks_relink 1 by blast
qed

lemma fix_no_match:
  assumes "nohit parentTarget s" "nohit numberedTarget s"
  shows "fixRelativeLinks s = s"
  using assms by (simp add: fixRelativeLinks_relink relink_nohit)

subsection \<open>Fragments and links that no pattern matches\<close>


lemma matchString_suffix:
  "run re (Map.empty, u) \<noteq> [] \<Longrightarrow> matchString re (a @ u)"
proof (induction a)
  case Nil
  then show ?case by (cases u) (auto split: list.splits)
next
  case (Cons c a)
  then show ?case by (auto split: list.splits)
qed

lemma parent_hit_matches: "href_split u = Some (V, r) \<Longrightarrow> parentTarget V \<Longrightarrow> run re_parent (Map.empty, u) \<noteq> []"
  using run_parent_complete [of u V r Map.empty] by (auto simp: href_split_iff)

lemma numbered_hit_matches: "href_split u = Some (V, r) \<Longrightarrow> numberedTarget V \<Longrightarrow> run re_numbered (Map.empty, u) \<noteq> []"
  using run_numbered_complete [of u V r Map.empty] by (auto simp: href_split_iff)

lemma no_parent_match_nohit: "\<not> matchString re_parent s \<Longrightarrow> nohit parentTarget s"
  unfolding nohit_def using parent_hit_matches matchString_suffix by blast

lemma no_numbered_match_nohit: "\<not> matchString re_numbered s \<Longrightarrow> nohit numberedTarget s"
  unfolding nohit_def using numbered_hit_matches matchString_suffix by blast

lemma no_parent_match_at_link:
  assumes "dq \<notin> set V" \<open>\<not> matchString re_parent (''href="'' @ V @ ''"'')\<close>
  shows "\<not> parentTarget V"
proof
  assume "parentTarget V"
  have \<open>href_split (''href="'' @ V @ dq # []) = Some (V, [])\<close>
    using assms(1) by (rule relink_at_link)
  from parent_hit_matches [OF this \<open>parentTarget V\<close>]
  have \<open>matchString re_parent ([] @ ''href="'' @ V @ dq # [])\<close>
    by (rule matchString_suffix)
  then show False using assms(2) by (simp add: dq_def)
qed

lemma no_numbered_match_at_link:
  assumes "dq \<notin> set V" \<open>\<not> matchString re_numbered (''href="'' @ V @ ''"'')\<close>
  shows "\<not> numberedTarget V"
proof
  assume "numberedTarget V"
  have \<open>href_split (''href="'' @ V @ dq # []) = Some (V, [])\<close>
    using assms(1) by (rule relink_at_link)
  from numbered_hit_matches [OF this \<open>numberedTarget V\<close>]
  have \<open>matchString re_numbered ([] @ ''href="'' @ V @ dq # [])\<close>
    by (rule matchString_suffix)
  then show False using assms(2) by (simp add: dq_def)
qed


lemma contains_inside: "contains s sub \<Longrightarrow> contains (a @ s @ b) sub"
proof -
  assume "contains s sub"
  then obtain x y where "s = x @ sub @ y" unfolding contains_iff by blast
  then have "a @ s @ b = (a @ x) @ sub @ (y @ b)" by simp
  then show ?thesis unfolding contains_iff by blast
qed

lemma contains_behind_prefix:
  \<open>contains (''href="../exercises/'' @ s) ''README.md'' = contains s ''README.md''\<close>
  by simp

lemma contains_before_quote:
  assumes "contains (Y @ [dq]) ''README.md''"
  shows "contains Y ''README.md''"
proof -
  obtain a b where ab: "Y @ [dq] = a @ ''README.md'' @ b"
    using assms unfolding contains_iff by blast
  show ?thesis
  proof (cases b rule: rev_cases)
    case Nil
    then have "last (Y @ [dq]) = last (a @ ''README.md'')" using ab by simp
    then show ?thesis by (simp add: dq_def)
  next
    case (snoc b' c)
    then have "Y @ [dq] = (a @ ''README.md'' @ b') @ [c]" using ab by simp
    then have "Y = a @ ''README.md'' @ b'" by (simp only: append1_eq_conv)
    then show ?thesis unfolding contains_iff by blast
  qed
qed

lemma fix_exercises_link:
  assumes "X \<noteq> []" "dq \<notin> set X" "\<not> contains (X @ ''.md'') ''README.md''"
  shows \<open>fixRelativeLinks (pre @ ''href="../exercises/'' @ X @ ''.md"'' @ post)
           = fixRelativeLinks pre @ ''href="'' @ X @ ''.html"'' @ fixRelativeLinks post\<close>
proof -
  let ?V = "''../exercises/'' @ X @ ''.md''"
  have pt: "parentTarget ?V" unfolding parentTarget_def using assms(1) by blast
  have q: "dq \<notin> set ?V" using assms(2) by (simp add: dq_def)
  have \<open>\<not> contains (''href="../exercises/'' @ (X @ ''.md'') @ [dq]) ''README.md''\<close>
    unfolding contains_behind_prefix using assms(3) contains_before_quote by blast
  then have \<open>\<not> contains (''href="'' @ ?V @ ''"'') ''README.md''\<close>
    by (simp add: dq_def)
  then have "parentStem ?V = X" unfolding parentStem_def by simp
  then show ?thesis
    using fix_parent_link [OF q pt, of pre post] by (simp add: dq_def)
qed


section \<open>The generator: what a run does\<close>

lemma generateExercisePage_eq:
  assumes "k < length metas"
  shows "generateExercisePage lib sys metas exercisesDir outputDir (metas ! k) (int k) tr =
     (if pageOk lib sys metas exercisesDir outputDir k
      then (Inr (composed lib sys metas exercisesDir k),
            tr @ pageEvents lib sys metas exercisesDir outputDir k)
      else (Inl (pageCause lib sys metas exercisesDir outputDir k),
            tr @ pageLeft lib sys metas exercisesDir outputDir k))"
proof -
  have prev: "(if int k > 0
       then map_option (\<lambda>p. trimSuffix (meta_Filename p) ''.md'' @ ''.html'') (at metas (int k - 1))
       else Some ''index.html'')
     = Some (if k = 0 then ''index.html'' else htmlName (metas ! (k - 1)))"
    using assms by (auto simp: at_def htmlName_def nat_diff_distrib')
  have "nat (int k + 1) = Suc k" by simp
  then have nxt: "(if int k < int (length metas) - 1
       then map_option (\<lambda>n. trimSuffix (meta_Filename n) ''.md'' @ ''.html'') (at metas (int k + 1))
       else Some [])
     = Some (if Suc k < length metas then htmlName (metas ! Suc k) else [])"
    using assms by (auto simp: at_def htmlName_def)
  show ?thesis
  proof (cases "readFile sys (sourcePath lib metas exercisesDir k)")
    case None
    then show ?thesis
      by (simp add: generateExercisePage_def pageOk_def pageCause_def pageLeft_def sourcePath_def)
  next
    case (Some content)
    then show ?thesis
      unfolding generateExercisePage_def prev nxt
      by (simp add: pageOk_def pageCause_def pageLeft_def sourcePath_def pagePath_def htmlName_def
          composed_def pageEvents_def pageText_def Let_def)
  qed
qed

lemma pageCause_not_panic: "pageCause lib sys metas exercisesDir outputDir k \<noteq> IndexOutOfRange"
  by (simp add: pageCause_def split: option.splits)

lemma generatePages_eq:
  assumes "metas = done @ rest"
  shows "generatePages lib sys metas exercisesDir outputDir (int (length done)) rest exercises tr =
     (case List.find (\<lambda>k. \<not> pageOk lib sys metas exercisesDir outputDir k)
             [length done..<length metas] of
        None \<Rightarrow>
          (Inr (exercises @ map (composed lib sys metas exercisesDir) [length done..<length metas]),
           tr @ concat (map (pageEvents lib sys metas exercisesDir outputDir)
                          [length done..<length metas]))
      | Some k \<Rightarrow>
          (Inl (GeneratingExercise (meta_Filename (metas ! k))
                  (pageCause lib sys metas exercisesDir outputDir k)),
           tr @ concat (map (pageEvents lib sys metas exercisesDir outputDir) [length done..<k])
              @ pageLeft lib sys metas exercisesDir outputDir k))"
  using assms
proof (induction rest arbitrary: "done" exercises tr)
  case Nil
  then show ?case by simp
next
  case (Cons m rest)
  let ?j = "length done"
  have j: "?j < length metas" and m: "metas ! ?j = m" using Cons.prems by simp_all
  have upt: "[?j..<length metas] = ?j # [Suc ?j..<length metas]"
    using j by (simp add: upt_conv_Cons)
  have step: "generateExercisePage lib sys metas exercisesDir outputDir m (int ?j) tr =
     (if pageOk lib sys metas exercisesDir outputDir ?j
      then (Inr (composed lib sys metas exercisesDir ?j),
            tr @ pageEvents lib sys metas exercisesDir outputDir ?j)
      else (Inl (pageCause lib sys metas exercisesDir outputDir ?j),
            tr @ pageLeft lib sys metas exercisesDir outputDir ?j))"
    using generateExercisePage_eq [OF j, of lib sys exercisesDir outputDir tr] m by simp
  show ?case
  proof (cases "pageOk lib sys metas exercisesDir outputDir ?j")
    case False
    then show ?thesis
      using pageCause_not_panic [of lib sys metas exercisesDir outputDir ?j]
      by (cases "pageCause lib sys metas exercisesDir outputDir ?j") (simp_all add: step upt m)
  next
    case True
    have "metas = (done @ [m]) @ rest" using Cons.prems by simp
    note ih = Cons.IH [OF this, of "exercises @ [composed lib sys metas exercisesDir ?j]"
        "tr @ pageEvents lib sys metas exercisesDir outputDir ?j"]
    have call: "generatePages lib sys metas exercisesDir outputDir (int ?j) (m # rest) exercises tr
        = generatePages lib sys metas exercisesDir outputDir (int (length (done @ [m]))) rest
            (exercises @ [composed lib sys metas exercisesDir ?j])
            (tr @ pageEvents lib sys metas exercisesDir outputDir ?j)"
      using True by (simp add: step add.commute)
    have fnd: "List.find (\<lambda>k. \<not> pageOk lib sys metas exercisesDir outputDir k) [?j..<length metas]
        = List.find (\<lambda>k. \<not> pageOk lib sys metas exercisesDir outputDir k) [Suc ?j..<length metas]"
      using True by (simp add: upt)
    show ?thesis
    proof (cases "List.find (\<lambda>k. \<not> pageOk lib sys metas exercisesDir outputDir k)
                    [Suc ?j..<length metas]")
      case None
      then show ?thesis unfolding call fnd using ih by (simp add: upt)
    next
      case (Some k)
      then have "k \<in> set [Suc ?j..<length metas]"
        by (auto simp: find_Some_iff)
      then have "[?j..<k] = ?j # [Suc ?j..<k]" by (simp add: upt_conv_Cons)
      then show ?thesis unfolding call fnd using ih Some by simp
    qed
  qed
qed

lemma main_eq:
  "main lib sys metas exercisesDir outputDir =
     (case mkdirAll sys outputDir of
        Some p \<Rightarrow> [Stderr (CreatingOutputDirectory p), Exit 1]
      | None \<Rightarrow>
        case firstBad lib sys metas exercisesDir outputDir of
        Some k \<Rightarrow>
          pagesDone lib sys metas exercisesDir outputDir k
          @ pageLeft lib sys metas exercisesDir outputDir k
          @ [Stderr (GeneratingExercise (meta_Filename (metas ! k))
                       (pageCause lib sys metas exercisesDir outputDir k)), Exit 1]
      | None \<Rightarrow>
          if \<not> parses lib ''index''
          then pagesDone lib sys metas exercisesDir outputDir (length metas)
               @ [Stderr (GeneratingIndex ParsingTemplate), Exit 1]
          else if \<not> create sys (indexPath lib outputDir)
          then pagesDone lib sys metas exercisesDir outputDir (length metas)
               @ [Stderr (GeneratingIndex (CreatingOutput (indexPath lib outputDir))), Exit 1]
          else if \<not> execute sys (indexPath lib outputDir)
                      (indexTemplate lib (allComposed lib sys metas exercisesDir))
          then pagesDone lib sys metas exercisesDir outputDir (length metas)
               @ [Created (indexPath lib outputDir), Stderr (GeneratingIndex ExecutingTemplate), Exit 1]
          else case writeFile sys (cssPath lib outputDir) (cssTemplate lib) of
            NotOpened \<Rightarrow>
               pagesDone lib sys metas exercisesDir outputDir (length metas)
               @ indexEvents lib sys metas exercisesDir outputDir
               @ [Stderr (CopyingCSS (WritingCSS (cssPath lib outputDir))), Exit 1]
          | NotWritten \<Rightarrow>
               pagesDone lib sys metas exercisesDir outputDir (length metas)
               @ indexEvents lib sys metas exercisesDir outputDir
               @ [Created (cssPath lib outputDir),
                  Stderr (CopyingCSS (WritingCSS (cssPath lib outputDir))), Exit 1]
          | Written \<Rightarrow>
               pagesDone lib sys metas exercisesDir outputDir (length metas)
               @ indexEvents lib sys metas exercisesDir outputDir
               @ [Wrote (cssPath lib outputDir) (cssTemplate lib), Stdout (Generated ''style.css''),
                  Stdout Success, Stdout (OutputDirectory outputDir),
                  Stdout (PageCount (int (length metas)))])"
proof -
  have pages: "generatePages lib sys metas exercisesDir outputDir 0 metas [] [MadeDir outputDir] =
     (case firstBad lib sys metas exercisesDir outputDir of
        None \<Rightarrow> (Inr (allComposed lib sys metas exercisesDir),
                  pagesDone lib sys metas exercisesDir outputDir (length metas))
      | Some k \<Rightarrow>
          (Inl (GeneratingExercise (meta_Filename (metas ! k))
                  (pageCause lib sys metas exercisesDir outputDir k)),
           pagesDone lib sys metas exercisesDir outputDir k
           @ pageLeft lib sys metas exercisesDir outputDir k))"
    using generatePages_eq [of metas "[]" metas lib sys exercisesDir outputDir "[]" "[MadeDir outputDir]"]
    by (simp add: firstBad_def allComposed_def pagesDone_def split: option.splits)
  show ?thesis
  proof (cases "firstBad lib sys metas exercisesDir outputDir")
    case (Some k)
    then show ?thesis unfolding main_def pages by (simp split: option.splits)
  next
    case None
    then show ?thesis unfolding main_def pages
      by (simp add: generateIndexPage_def copyCSSFile_def indexEvents_def indexPath_def cssPath_def
          allComposed_def Let_def split: option.splits writing.splits)
  qed
qed

lemma writtenPaths_append [simp]: "writtenPaths (a @ b) = writtenPaths a \<union> writtenPaths b"
  by (simp add: writtenPaths_def)

lemma writtenPaths_Nil [simp]: "writtenPaths [] = {}"
  by (simp add: writtenPaths_def)

lemma writtenPaths_Cons [simp]:
  "writtenPaths (e # tr) = set (touched e) \<union> writtenPaths tr"
  by (simp add: writtenPaths_def)

lemma writtenPaths_pageEvents [simp]:
  "writtenPaths (pageEvents lib sys metas exercisesDir outputDir k) = {pagePath lib metas outputDir k}"
  by (simp add: pageEvents_def)

lemma writtenPaths_pages:
  "writtenPaths (concat (map (pageEvents lib sys metas exercisesDir outputDir) ks))
     = pagePath lib metas outputDir ` set ks"
  by (induction ks) auto

lemma writtenPaths_pagesDone [simp]:
  "writtenPaths (pagesDone lib sys metas exercisesDir outputDir k) = pagePath lib metas outputDir ` {..<k}"
  by (auto simp: pagesDone_def writtenPaths_pages)

lemma writtenPaths_pageLeft:
  "writtenPaths (pageLeft lib sys metas exercisesDir outputDir k) \<subseteq> {pagePath lib metas outputDir k}"
  by (simp add: pageLeft_def)

lemma writtenPaths_indexEvents [simp]:
  "writtenPaths (indexEvents lib sys metas exercisesDir outputDir) = {indexPath lib outputDir}"
  by (simp add: indexEvents_def)

lemma pagePath_image:
  "pagePath lib metas outputDir ` {..<length metas} = (\<lambda>m. pathJoin lib outputDir (htmlName m)) ` set metas"
  by (auto simp: pagePath_def set_conv_nth image_iff) 

lemma firstBad_None: "firstBad lib sys metas exercisesDir outputDir = None
    \<longleftrightarrow> (\<forall>k<length metas. pageOk lib sys metas exercisesDir outputDir k)"
  by (auto simp: firstBad_def find_None_iff)

lemma firstBad_Some:
  assumes "firstBad lib sys metas exercisesDir outputDir = Some k"
  shows "k < length metas" "\<not> pageOk lib sys metas exercisesDir outputDir k"
    "\<forall>j<k. pageOk lib sys metas exercisesDir outputDir j"
proof -
  from assms obtain i where i: "i < length [0..<length metas]" "\<not> pageOk lib sys metas exercisesDir outputDir ([0..<length metas] ! i)"
    "k = [0..<length metas] ! i" "\<forall>j<i. pageOk lib sys metas exercisesDir outputDir ([0..<length metas] ! j)"
    unfolding firstBad_def find_Some_iff by blast
  then have ki: "k = i" by simp
  show "k < length metas" using i(1) ki by simp
  show "\<not> pageOk lib sys metas exercisesDir outputDir k" using i(1,2) ki by simp
  show "\<forall>j<k. pageOk lib sys metas exercisesDir outputDir j"
    using i(1,4) ki by auto
qed

lemma no_success_in_pages [simp]:
  "Stdout Success \<notin> set (pagesDone lib sys metas exercisesDir outputDir k)"
  "Stdout Success \<notin> set (pageLeft lib sys metas exercisesDir outputDir k)"
  "Stdout Success \<notin> set (indexEvents lib sys metas exercisesDir outputDir)"
  by (auto simp: pagesDone_def pageEvents_def pageLeft_def indexEvents_def)

lemma main_ok:
  assumes "runOk lib sys metas exercisesDir outputDir"
  shows "main lib sys metas exercisesDir outputDir =
     pagesDone lib sys metas exercisesDir outputDir (length metas)
     @ indexEvents lib sys metas exercisesDir outputDir
     @ [Wrote (cssPath lib outputDir) (cssTemplate lib), Stdout (Generated ''style.css''),
        Stdout Success, Stdout (OutputDirectory outputDir), Stdout (PageCount (int (length metas)))]"
proof -
  have "firstBad lib sys metas exercisesDir outputDir = None"
    using assms by (simp add: firstBad_None runOk_def)
  then show ?thesis using assms by (simp add: main_eq runOk_def)
qed

lemma succeeded_iff:
  "succeeded (main lib sys metas exercisesDir outputDir) \<longleftrightarrow> runOk lib sys metas exercisesDir outputDir"
proof (cases "firstBad lib sys metas exercisesDir outputDir")
  case None
  then have "\<forall>k<length metas. pageOk lib sys metas exercisesDir outputDir k"
    by (simp add: firstBad_None)
  then show ?thesis using None
    by (simp add: main_eq succeeded_def runOk_def split: option.splits writing.splits)
next
  case (Some k)
  then have "\<not> (\<forall>k<length metas. pageOk lib sys metas exercisesDir outputDir k)"
    using firstBad_Some(1,2) [OF Some] by blast
  then show ?thesis using Some
    by (simp add: main_eq succeeded_def runOk_def split: option.splits)
qed

lemma generateExercisePage_Inr:
  assumes "i < length metas"
    and "generateExercisePage lib sys metas exercisesDir outputDir (metas ! i) (int i) tr = (Inr e, tr')"
  shows "e = composed lib sys metas exercisesDir i"
  using assms(2) unfolding generateExercisePage_eq [OF assms(1)] by (auto split: if_splits)

lemma sample_runOk:
  "runOk sampleLibrary sampleSystem metas ''../exercises'' ''../website''"
  by (simp add: runOk_def pageOk_def sampleLibrary_def sampleSystem_def)

lemma sample_succeeded:
  "succeeded (main sampleLibrary sampleSystem metas ''../exercises'' ''../website'')"
  by (simp add: succeeded_iff sample_runOk)

lemma htmlName_shipped:
  "map htmlName exerciseMetadata =
     [''00-introduction-setup.html'', ''01-compile-go-unchanged.html'',
      ''02-scanner-arrow-operator.html'', ''03-parser-multiple-go.html'',
      ''04-compiler-inlining-parameters.html'', ''05-gofmt-ast-transformation.html'',
      ''06-ssa-power-of-two-detector.html'', ''07-runtime-patient-go.html'',
      ''08-goroutine-sleep-detective.html'', ''09-predictable-select.html'',
      ''10-java-style-stack-traces.html'']"
  by (simp add: exerciseMetadata_def htmlName_def trimSuffix_def hasSuffix_def)

lemma composed_links_named:
  assumes "i < length metas"
  shows "PrevLink (composed lib sys metas exercisesDir i) \<in> insert ''index.html'' (htmlName ` set metas)"
    "NextLink (composed lib sys metas exercisesDir i) = []
       \<or> NextLink (composed lib sys metas exercisesDir i) \<in> htmlName ` set metas"
  using assms by (auto simp: composed_def)

lemma filesAfter_snoc: "filesAfter fs (tr @ [e]) = store (filesAfter fs tr) e"
  by (simp add: filesAfter_def)

lemma filesAfter_overwritten:
  "p \<in> writtenPaths tr \<Longrightarrow> filesAfter fs1 tr p = filesAfter fs2 tr p"
proof (induction tr rule: rev_induct)
  case Nil
  then show ?case by simp
next
  case (snoc e tr)
  show ?case
  proof (cases "p \<in> set (touched e)")
    case True
    then show ?thesis by (cases e) (simp_all add: filesAfter_snoc)
  next
    case False
    then have "p \<in> writtenPaths tr" using snoc.prems by simp
    then have "filesAfter fs1 tr p = filesAfter fs2 tr p" by (rule snoc.IH)
    then show ?thesis using False by (cases e) (simp_all add: filesAfter_snoc)
  qed
qed

lemma composed_same_sources:
  assumes "k < length metas"
    and "\<forall>m\<in>set metas. readFile sys1 (pathJoin lib exercisesDir (meta_Filename m))
                        = readFile sys2 (pathJoin lib exercisesDir (meta_Filename m))"
  shows "composed lib sys1 metas exercisesDir k = composed lib sys2 metas exercisesDir k"
  using assms by (simp add: composed_def sourcePath_def)

lemma other_sources:
  "\<forall>m\<in>set exerciseMetadata.
      readFile sampleSystem (pathJoin sampleLibrary ''../exercises'' (meta_Filename m))
      = readFile sampleOther (pathJoin sampleLibrary ''../exercises'' (meta_Filename m))"
  by (simp add: exerciseMetadata_def sampleLibrary_def sampleOther_def sampleSystem_def)

lemma other_runOk: "runOk sampleLibrary sampleOther exerciseMetadata ''../exercises'' ''../website''"
proof -
  have "pageOk sampleLibrary sampleOther exerciseMetadata ''../exercises'' ''../website'' k"
    if "k < length exerciseMetadata" for k
  proof -
    have "exerciseMetadata ! k \<in> set exerciseMetadata" using that by simp
    then have "readFile sampleOther (sourcePath sampleLibrary exerciseMetadata ''../exercises'' k)
        = readFile sampleSystem (sourcePath sampleLibrary exerciseMetadata ''../exercises'' k)"
      using other_sources unfolding sourcePath_def by metis
    then show ?thesis
      unfolding pageOk_def by (simp add: sampleLibrary_def sampleSystem_def sampleOther_def)
  qed
  then show ?thesis
    by (simp add: runOk_def sampleLibrary_def sampleSystem_def sampleOther_def)
qed




lemma quiet_append [simp]: "quiet (a @ b) \<longleftrightarrow> quiet a \<and> quiet b"
  by (simp add: quiet_def)

lemma quiet_Created [simp]: "quiet [Created p]"
  by (simp add: quiet_def)

lemma quiet_pages [simp]:
  "quiet (pagesDone lib sys metas exercisesDir outputDir k)"
  "quiet (pageLeft lib sys metas exercisesDir outputDir k)"
  "quiet (indexEvents lib sys metas exercisesDir outputDir)"
  by (simp_all add: quiet_def pagesDone_def pageEvents_def pageLeft_def indexEvents_def
      list_all_iff)


lemma no_wrote_in_pages [simp]:
  "Wrote p text \<notin> set (pagesDone lib sys metas exercisesDir outputDir k)"
  "Wrote p text \<notin> set (pageLeft lib sys metas exercisesDir outputDir k)"
  "Wrote p text \<notin> set (indexEvents lib sys metas exercisesDir outputDir)"
  by (auto simp: pagesDone_def pageEvents_def pageLeft_def indexEvents_def)







section \<open>The claims\<close>

text \<open>
  C1.  The link rewriter is idempotent: for every fragment, rewriting the result of
  \<^verbatim>\<open>fixRelativeLinks\<close> once more changes nothing.
\<close>

theorem C1_link_rewrite_idempotent: "fixRelativeLinks (fixRelativeLinks s) = fixRelativeLinks s"
proof -
  let ?p1 = "relink parentTarget parentStem" and ?p2 = "relink numberedTarget numberedStem"
  define t where "t = ?p1 s"
  have fixed: "?p1 t = t" unfolding t_def
    using parentTarget_md parentStem_quotefree by (rule relink_idem)
  have nh: "nohit parentTarget t"
  proof (rule relink_fixed_nohit [where h = parentStem])
    show "endsMd V" if "parentTarget V" for V using that by (rule parentTarget_md)
    show "dq \<notin> set (parentStem V)" if "dq \<notin> set V" for V
      using that by (rule parentStem_quotefree)
    show "?p1 t = t" by (rule fixed)
  qed
  have "?p1 (?p2 t) = ?p2 t"
  proof (rule relink_relink)
    show "endsMd V" if "parentTarget V" for V using that by (rule parentTarget_md)
    show "dq \<notin> set (numberedStem V)" if "dq \<notin> set V" for V using that by (rule numberedStem_quotefree)
    show "numberedTarget V" if "t = a @ u" "href_split u = Some (V, r)" "parentTarget V" for a u V r
      using nh that unfolding nohit_def by blast
  qed
  moreover have "?p2 (?p2 t) = ?p2 t"
    using numberedTarget_md numberedStem_quotefree by (rule relink_idem)
  ultimately show ?thesis
    by (simp add: fixRelativeLinks_relink t_def)
qed

theorem C1_witness:
  \<open>fixRelativeLinks (fixRelativeLinks ''<a href="../README.md">x</a> <a href="03-topic.md">y</a>'')
     = ''<a href="index.html">x</a> <a href="03-topic.html">y</a>''\<close>
proof -
  have \<open>fixRelativeLinks ''<a href="../README.md">x</a> <a href="03-topic.md">y</a>''
      = ''<a href="index.html">x</a> <a href="03-topic.html">y</a>''\<close>
    by code_simp
  then show ?thesis
    using C1_link_rewrite_idempotent
      [of \<open>''<a href="../README.md">x</a> <a href="03-topic.md">y</a>''\<close>]
    by simp
qed

text \<open>
  C2.  For the descriptor at position \<open>i\<close> of any list, the \<^verbatim>\<open>Exercise\<close> that
  \<^verbatim>\<open>generateExercisePage\<close> returns has \<^verbatim>\<open>PrevLink\<close> equal to \<^verbatim>\<open>index.html\<close> at the first position
  and to the output file name of descriptor \<open>i - 1\<close> elsewhere, and \<^verbatim>\<open>NextLink\<close> empty at the
  last position and equal to the output file name of descriptor \<open>i + 1\<close> elsewhere.
\<close>

theorem C2_previous_and_next:
  assumes "i < length metas"
    and "generateExercisePage lib sys metas exercisesDir outputDir (metas ! i) (int i) tr = (Inr e, tr')"
  shows "PrevLink e = (if i = 0 then ''index.html'' else htmlName (metas ! (i - 1)))
       \<and> NextLink e = (if i = length metas - 1 then [] else htmlName (metas ! (i + 1)))"
proof -
  have "e = composed lib sys metas exercisesDir i"
    using assms by (rule generateExercisePage_Inr)
  moreover have "Suc i < length metas \<longleftrightarrow> i \<noteq> length metas - 1"
    using assms(1) by auto
  ultimately show ?thesis by (simp add: composed_def)
qed

theorem C2_witness:
  "(1::nat) < length exerciseMetadata
   \<and> (\<exists>e tr'. generateExercisePage sampleLibrary sampleSystem exerciseMetadata ''../exercises''
                  ''../website'' (exerciseMetadata ! 1) (int 1) [] = (Inr e, tr')
        \<and> PrevLink e = ''00-introduction-setup.html''
        \<and> NextLink e = ''02-scanner-arrow-operator.html'')
   \<and> (\<exists>e tr'. generateExercisePage sampleLibrary sampleSystem exerciseMetadata ''../exercises''
                  ''../website'' (exerciseMetadata ! 0) (int 0) [] = (Inr e, tr')
        \<and> PrevLink e = ''index.html'')
   \<and> (\<exists>e tr'. generateExercisePage sampleLibrary sampleSystem exerciseMetadata ''../exercises''
                  ''../website'' (exerciseMetadata ! 10) (int 10) [] = (Inr e, tr')
        \<and> NextLink e = [])"
proof -
  have len: "length exerciseMetadata = 11" by (simp add: exerciseMetadata_def)
  have ok: "pageOk sampleLibrary sampleSystem exerciseMetadata ''../exercises'' ''../website'' k" for k
    by (simp add: pageOk_def sampleLibrary_def sampleSystem_def)
  have ret: "k < 11 \<Longrightarrow> \<exists>e tr'. generateExercisePage sampleLibrary sampleSystem exerciseMetadata
      ''../exercises'' ''../website'' (exerciseMetadata ! k) (int k) [] = (Inr e, tr')" for k
    using generateExercisePage_eq [of k exerciseMetadata sampleLibrary sampleSystem
        "''../exercises''" "''../website''" "[]"] ok len by simp
  have names: "htmlName (exerciseMetadata ! 0) = ''00-introduction-setup.html''"
    "htmlName (exerciseMetadata ! 2) = ''02-scanner-arrow-operator.html''"
    by (simp_all add: exerciseMetadata_def htmlName_def trimSuffix_def hasSuffix_def)
  from ret [of 1] obtain e1 t1 where e1: "generateExercisePage sampleLibrary sampleSystem exerciseMetadata
      ''../exercises'' ''../website'' (exerciseMetadata ! 1) (int 1) [] = (Inr e1, t1)" by auto
  from ret [of 0] obtain e0 t0 where e0: "generateExercisePage sampleLibrary sampleSystem exerciseMetadata
      ''../exercises'' ''../website'' (exerciseMetadata ! 0) (int 0) [] = (Inr e0, t0)" by auto
  from ret [of 10] obtain e10 t10 where e10: "generateExercisePage sampleLibrary sampleSystem exerciseMetadata
      ''../exercises'' ''../website'' (exerciseMetadata ! 10) (int 10) [] = (Inr e10, t10)" by auto
  have "PrevLink e1 = ''00-introduction-setup.html'' \<and> NextLink e1 = ''02-scanner-arrow-operator.html''"
    using C2_previous_and_next [OF _ e1] len names by (simp add: numeral_2_eq_2)
  moreover have "PrevLink e0 = ''index.html''"
    using C2_previous_and_next [OF _ e0] len by simp
  moreover have "NextLink e10 = []"
    using C2_previous_and_next [OF _ e10] len by simp
  ultimately show ?thesis using e0 e1 e10 len by auto
qed

text \<open>
  C3.  In a run that reports success, the index page is the text of \<^verbatim>\<open>indexTemplate\<close> with the
  number of descriptors for \<^verbatim>\<open>{{len .Exercises}}\<close> and, between \<^verbatim>\<open>{{range .Exercises}}\<close> and
  \<^verbatim>\<open>{{end}}\<close>, one card for each position \<open>i\<close> of the descriptor list, in ascending order of
  \<open>i\<close>: the card shows the number \<open>i\<close>, the emoji, the title and the description of
  descriptor \<open>i\<close>, and links to its page.
\<close>

theorem C3_index_order:
  assumes "succeeded (main lib sys metas exercisesDir outputDir)"
  shows \<open>Rendered (pathJoin lib outputDir ''index.html'')
     (indexHead lib @ printInt lib (int (length metas)) @ indexMiddle lib
      @ concat (map (\<lambda>i.
           [CHR 0x0A] @ replicate 16 CHR '' '' @ ''<div class="exercise-card">''
           @ [CHR 0x0A] @ replicate 20 CHR '' '' @ ''<div class="exercise-number">Exercise ''
           @ printInt lib (int i) @ ''</div>''
           @ [CHR 0x0A] @ replicate 20 CHR '' '' @ ''<h3>'' @ escapeText lib (meta_Emoji (metas ! i))
           @ '' <a href="'' @ escapeHref lib (htmlName (metas ! i)) @ ''">''
           @ escapeText lib (meta_Title (metas ! i)) @ ''</a></h3>''
           @ [CHR 0x0A] @ replicate 20 CHR '' '' @ ''<p>''
           @ escapeText lib (meta_Description (metas ! i)) @ ''</p>''
           @ [CHR 0x0A] @ replicate 16 CHR '' '' @ ''</div>''
           @ [CHR 0x0A] @ replicate 16 CHR '' '')
          [0..<length metas])
      @ indexTail lib)
     \<in> set (main lib sys metas exercisesDir outputDir)\<close>
proof -
  have ok: "runOk lib sys metas exercisesDir outputDir" using assms by (simp add: succeeded_iff)
  have "Rendered (indexPath lib outputDir) (indexTemplate lib (allComposed lib sys metas exercisesDir))
      \<in> set (main lib sys metas exercisesDir outputDir)"
    unfolding main_ok [OF ok] by (simp add: indexEvents_def)
  then show ?thesis
    by (simp add: indexPath_def indexTemplate_def allComposed_def exerciseCard_def composed_def
        comp_def)
qed

theorem C3_witness:
  \<open>succeeded (main sampleLibrary sampleSystem threeDescriptors ''../exercises'' ''../website'')
   \<and> Rendered ''../website/index.html''
     (''<html>||| exercises''
      @ [CHR 0x0A] @ ''                <div class="exercise-card">''
      @ [CHR 0x0A] @ ''                    <div class="exercise-number">Exercise </div>''
      @ [CHR 0x0A] @ ''                    <h3>* <a href="00-setup.html">Setup</a></h3>''
      @ [CHR 0x0A] @ ''                    <p>Build it.</p>''
      @ [CHR 0x0A] @ ''                </div>''
      @ [CHR 0x0A] @ ''                ''
      @ [CHR 0x0A] @ ''                <div class="exercise-card">''
      @ [CHR 0x0A] @ ''                    <div class="exercise-number">Exercise |</div>''
      @ [CHR 0x0A] @ ''                    <h3>+ <a href="01-scanner.html">Scanner</a></h3>''
      @ [CHR 0x0A] @ ''                    <p>Add a token.</p>''
      @ [CHR 0x0A] @ ''                </div>''
      @ [CHR 0x0A] @ ''                ''
      @ [CHR 0x0A] @ ''                <div class="exercise-card">''
      @ [CHR 0x0A] @ ''                    <div class="exercise-number">Exercise ||</div>''
      @ [CHR 0x0A] @ ''                    <h3># <a href="02-parser.html">Parser</a></h3>''
      @ [CHR 0x0A] @ ''                    <p>Parse it.</p>''
      @ [CHR 0x0A] @ ''                </div>''
      @ [CHR 0x0A] @ ''                ''
      @ ''</html>'')
     \<in> set (main sampleLibrary sampleSystem threeDescriptors ''../exercises'' ''../website'')\<close>
proof -
  have path: "pathJoin sampleLibrary ''../website'' ''index.html'' = ''../website/index.html''"
    by (simp add: sampleLibrary_def)
  have page: \<open>
     (indexHead sampleLibrary @ printInt sampleLibrary (int (length threeDescriptors)) @ indexMiddle sampleLibrary
      @ concat (map (\<lambda>i.
           [CHR 0x0A] @ replicate 16 CHR '' '' @ ''<div class="exercise-card">''
           @ [CHR 0x0A] @ replicate 20 CHR '' '' @ ''<div class="exercise-number">Exercise ''
           @ printInt sampleLibrary (int i) @ ''</div>''
           @ [CHR 0x0A] @ replicate 20 CHR '' '' @ ''<h3>'' @ escapeText sampleLibrary (meta_Emoji (threeDescriptors ! i))
           @ '' <a href="'' @ escapeHref sampleLibrary (htmlName (threeDescriptors ! i)) @ ''">''
           @ escapeText sampleLibrary (meta_Title (threeDescriptors ! i)) @ ''</a></h3>''
           @ [CHR 0x0A] @ replicate 20 CHR '' '' @ ''<p>''
           @ escapeText sampleLibrary (meta_Description (threeDescriptors ! i)) @ ''</p>''
           @ [CHR 0x0A] @ replicate 16 CHR '' '' @ ''</div>''
           @ [CHR 0x0A] @ replicate 16 CHR '' '')
          [0..<length threeDescriptors])
      @ indexTail sampleLibrary)
     =
     (''<html>||| exercises''
      @ [CHR 0x0A] @ ''                <div class="exercise-card">''
      @ [CHR 0x0A] @ ''                    <div class="exercise-number">Exercise </div>''
      @ [CHR 0x0A] @ ''                    <h3>* <a href="00-setup.html">Setup</a></h3>''
      @ [CHR 0x0A] @ ''                    <p>Build it.</p>''
      @ [CHR 0x0A] @ ''                </div>''
      @ [CHR 0x0A] @ ''                ''
      @ [CHR 0x0A] @ ''                <div class="exercise-card">''
      @ [CHR 0x0A] @ ''                    <div class="exercise-number">Exercise |</div>''
      @ [CHR 0x0A] @ ''                    <h3>+ <a href="01-scanner.html">Scanner</a></h3>''
      @ [CHR 0x0A] @ ''                    <p>Add a token.</p>''
      @ [CHR 0x0A] @ ''                </div>''
      @ [CHR 0x0A] @ ''                ''
      @ [CHR 0x0A] @ ''                <div class="exercise-card">''
      @ [CHR 0x0A] @ ''                    <div class="exercise-number">Exercise ||</div>''
      @ [CHR 0x0A] @ ''                    <h3># <a href="02-parser.html">Parser</a></h3>''
      @ [CHR 0x0A] @ ''                    <p>Parse it.</p>''
      @ [CHR 0x0A] @ ''                </div>''
      @ [CHR 0x0A] @ ''                ''
      @ ''</html>'')\<close>
    by code_simp
  have ok: "succeeded (main sampleLibrary sampleSystem threeDescriptors ''../exercises'' ''../website'')"
    by (rule sample_succeeded)
  from C3_index_order [OF ok] have
    \<open>Rendered ''../website/index.html''
     (''<html>||| exercises''
      @ [CHR 0x0A] @ ''                <div class="exercise-card">''
      @ [CHR 0x0A] @ ''                    <div class="exercise-number">Exercise </div>''
      @ [CHR 0x0A] @ ''                    <h3>* <a href="00-setup.html">Setup</a></h3>''
      @ [CHR 0x0A] @ ''                    <p>Build it.</p>''
      @ [CHR 0x0A] @ ''                </div>''
      @ [CHR 0x0A] @ ''                ''
      @ [CHR 0x0A] @ ''                <div class="exercise-card">''
      @ [CHR 0x0A] @ ''                    <div class="exercise-number">Exercise |</div>''
      @ [CHR 0x0A] @ ''                    <h3>+ <a href="01-scanner.html">Scanner</a></h3>''
      @ [CHR 0x0A] @ ''                    <p>Add a token.</p>''
      @ [CHR 0x0A] @ ''                </div>''
      @ [CHR 0x0A] @ ''                ''
      @ [CHR 0x0A] @ ''                <div class="exercise-card">''
      @ [CHR 0x0A] @ ''                    <div class="exercise-number">Exercise ||</div>''
      @ [CHR 0x0A] @ ''                    <h3># <a href="02-parser.html">Parser</a></h3>''
      @ [CHR 0x0A] @ ''                    <p>Parse it.</p>''
      @ [CHR 0x0A] @ ''                </div>''
      @ [CHR 0x0A] @ ''                ''
      @ ''</html>'')
     \<in> set (main sampleLibrary sampleSystem threeDescriptors ''../exercises'' ''../website'')\<close>
    by (simp only: path page)
  with ok show ?thesis by (rule conjI)
qed

text \<open>
  C4, as stated, fails: a successful run also writes the stylesheet, which is neither the
  index nor the page of a descriptor.  On the shipped list the files written are not the
  twelve the claim names.
\<close>

theorem C4_counterexample:
  "succeeded (main sampleLibrary sampleSystem exerciseMetadata ''../exercises'' ''../website'')
   \<and> writtenPaths (main sampleLibrary sampleSystem exerciseMetadata ''../exercises'' ''../website'')
       \<noteq> {''../website/index.html'',
           ''../website/00-introduction-setup.html'', ''../website/01-compile-go-unchanged.html'',
           ''../website/02-scanner-arrow-operator.html'', ''../website/03-parser-multiple-go.html'',
           ''../website/04-compiler-inlining-parameters.html'',
           ''../website/05-gofmt-ast-transformation.html'',
           ''../website/06-ssa-power-of-two-detector.html'', ''../website/07-runtime-patient-go.html'',
           ''../website/08-goroutine-sleep-detective.html'', ''../website/09-predictable-select.html'',
           ''../website/10-java-style-stack-traces.html''}"
proof
  let ?tr = "main sampleLibrary sampleSystem exerciseMetadata ''../exercises'' ''../website''"
  let ?claimed = "{''../website/index.html'',
           ''../website/00-introduction-setup.html'', ''../website/01-compile-go-unchanged.html'',
           ''../website/02-scanner-arrow-operator.html'', ''../website/03-parser-multiple-go.html'',
           ''../website/04-compiler-inlining-parameters.html'',
           ''../website/05-gofmt-ast-transformation.html'',
           ''../website/06-ssa-power-of-two-detector.html'', ''../website/07-runtime-patient-go.html'',
           ''../website/08-goroutine-sleep-detective.html'', ''../website/09-predictable-select.html'',
           ''../website/10-java-style-stack-traces.html''}"
  show "succeeded ?tr" by (rule sample_succeeded)
  have css: "''../website/style.css'' \<in> writtenPaths ?tr"
    unfolding main_ok [OF sample_runOk] by (simp add: cssPath_def sampleLibrary_def)
  have other: "''../website/style.css'' \<notin> ?claimed" by simp
  show "writtenPaths ?tr \<noteq> ?claimed"
  proof
    assume "writtenPaths ?tr = ?claimed"
    then have "''../website/style.css'' \<in> ?claimed" using css by (simp only:)
    then show False using other by (simp only: not_True_eq_False)
  qed
qed

text \<open>
  C4, amended.  After a run that reports success the files written are the index, the
  stylesheet and the page of every descriptor, and no other.
\<close>

theorem C4_written_files:
  assumes "succeeded (main lib sys metas exercisesDir outputDir)"
  shows "writtenPaths (main lib sys metas exercisesDir outputDir)
       = insert (pathJoin lib outputDir ''index.html'')
           (insert (pathJoin lib outputDir ''style.css'')
              ((\<lambda>m. pathJoin lib outputDir (htmlName m)) ` set metas))"
proof -
  have ok: "runOk lib sys metas exercisesDir outputDir" using assms by (simp add: succeeded_iff)
  show ?thesis
    unfolding main_ok [OF ok]
    by (simp add: pagePath_image indexPath_def cssPath_def) blast
qed

theorem C4_witness:
  "succeeded (main sampleLibrary sampleSystem (take 2 exerciseMetadata) ''../exercises'' ''../website'')
   \<and> writtenPaths (main sampleLibrary sampleSystem (take 2 exerciseMetadata) ''../exercises'' ''../website'')
       = {''../website/index.html'', ''../website/style.css'',
          ''../website/00-introduction-setup.html'', ''../website/01-compile-go-unchanged.html''}"
proof -
  have "map htmlName (take 2 exerciseMetadata)
      = [''00-introduction-setup.html'', ''01-compile-go-unchanged.html'']"
    by (simp add: take_map [symmetric] htmlName_shipped)
  moreover have "(\<lambda>m. ''../website/'' @ htmlName m) ` set (take 2 exerciseMetadata)
      = (\<lambda>n. ''../website/'' @ n) ` set (map htmlName (take 2 exerciseMetadata))"
    by (simp add: image_image)
  ultimately have "(\<lambda>m. ''../website/'' @ htmlName m) ` set (take 2 exerciseMetadata)
      = {''../website/00-introduction-setup.html'', ''../website/01-compile-go-unchanged.html''}"
    by simp
  then show ?thesis
    using C4_written_files [OF sample_succeeded, of "take 2 exerciseMetadata"] sample_succeeded
    by (simp add: sampleLibrary_def)
qed

text \<open>
  C5.  The link rewriter handles two shapes of reference and leaves every other link as it is.
  Wherever a link stands in a fragment, the text before and after it is rewritten on its own,
  and
  \<^item> \<^verbatim>\<open>href="../README.md"\<close> becomes \<^verbatim>\<open>href="index.html"\<close>, and \<^verbatim>\<open>href="../exercises/X.md"\<close>
    becomes \<^verbatim>\<open>href="X.html"\<close> for every \<open>X\<close> of at least one character, none a quote, unless
    \<^verbatim>\<open>X.md\<close> contains \<^verbatim>\<open>README.md\<close>;
  \<^item> \<^verbatim>\<open>href="03-topic.md"\<close> becomes \<^verbatim>\<open>href="03-topic.html"\<close>, and so does every link of two
    digits, a dash and at least one character, none a quote, before \<^verbatim>\<open>.md\<close>;
  \<^item> \<^verbatim>\<open>href="https://example.com"\<close> stays; a link that neither pattern of the rewriter matches
    keeps its bytes wherever it stands; and a fragment in which neither pattern matches
    anywhere is returned unchanged.
\<close>

theorem C5_two_shapes:
  \<open>(\<forall>pre post. fixRelativeLinks (pre @ ''href="../README.md"'' @ post)
        = fixRelativeLinks pre @ ''href="index.html"'' @ fixRelativeLinks post)
   \<and> (\<forall>X pre post. X \<noteq> [] \<and> dq \<notin> set X \<and> \<not> contains (X @ ''.md'') ''README.md''
        \<longrightarrow> fixRelativeLinks (pre @ ''href="../exercises/'' @ X @ ''.md"'' @ post)
              = fixRelativeLinks pre @ ''href="'' @ X @ ''.html"'' @ fixRelativeLinks post)
   \<and> (\<forall>pre post. fixRelativeLinks (pre @ ''href="03-topic.md"'' @ post)
        = fixRelativeLinks pre @ ''href="03-topic.html"'' @ fixRelativeLinks post)
   \<and> (\<forall>d1 d2 Z pre post. d1 \<in> set ''0123456789'' \<and> d2 \<in> set ''0123456789''
          \<and> Z \<noteq> [] \<and> dq \<notin> set Z
        \<longrightarrow> fixRelativeLinks (pre @ ''href="'' @ d1 # d2 # ''-'' @ Z @ ''.md"'' @ post)
              = fixRelativeLinks pre @ ''href="'' @ d1 # d2 # ''-'' @ Z @ ''.html"''
                @ fixRelativeLinks post)
   \<and> (\<forall>pre post. fixRelativeLinks (pre @ ''href="https://example.com"'' @ post)
        = fixRelativeLinks pre @ ''href="https://example.com"'' @ fixRelativeLinks post)
   \<and> (\<forall>V pre post. dq \<notin> set V
          \<and> \<not> matchString re_parent (''href="'' @ V @ ''"'')
          \<and> \<not> matchString re_numbered (''href="'' @ V @ ''"'')
        \<longrightarrow> (\<exists>post'. fixRelativeLinks (pre @ ''href="'' @ V @ ''"'' @ post)
                       = fixRelativeLinks pre @ ''href="'' @ V @ ''"'' @ post'))
   \<and> (\<forall>s. \<not> matchString re_parent s \<and> \<not> matchString re_numbered s \<longrightarrow> fixRelativeLinks s = s)\<close>
proof (intro conjI allI impI)
  fix pre post
  have "parentTarget ''../README.md''" by (simp add: parentTarget_def)
  moreover have "dq \<notin> set ''../README.md''" by (simp add: dq_def)
  ultimately show \<open>fixRelativeLinks (pre @ ''href="../README.md"'' @ post)
        = fixRelativeLinks pre @ ''href="index.html"'' @ fixRelativeLinks post\<close>
    using fix_parent_link [of "''../README.md''" pre post]
    by (simp add: parentStem_def dq_def)
next
  fix X pre post
  assume \<open>X \<noteq> [] \<and> dq \<notin> set X \<and> \<not> contains (X @ ''.md'') ''README.md''\<close>
  then show \<open>fixRelativeLinks (pre @ ''href="../exercises/'' @ X @ ''.md"'' @ post)
              = fixRelativeLinks pre @ ''href="'' @ X @ ''.html"'' @ fixRelativeLinks post\<close>
    using fix_exercises_link [of X pre post] by blast
next
  fix pre post
  have "numberedTarget ''03-topic.md''"
    unfolding numberedTarget_def
    by (intro exI [of _ "CHR ''0''"] exI [of _ "CHR ''3''"] exI [of _ "''topic''"]) simp
  moreover have "dq \<notin> set ''03-topic.md''" by (simp add: dq_def)
  ultimately show \<open>fixRelativeLinks (pre @ ''href="03-topic.md"'' @ post)
        = fixRelativeLinks pre @ ''href="03-topic.html"'' @ fixRelativeLinks post\<close>
    using fix_numbered_link [of "''03-topic.md''" pre post]
    by (simp add: numberedStem_def dq_def)
next
  fix d1 d2 Z pre post
  assume a: \<open>d1 \<in> set ''0123456789'' \<and> d2 \<in> set ''0123456789'' \<and> Z \<noteq> [] \<and> dq \<notin> set Z\<close>
  let ?V = "d1 # d2 # CHR ''-'' # Z @ ''.md''"
  have nt: "numberedTarget ?V" unfolding numberedTarget_def using a by blast
  have q: "dq \<notin> set ?V" using a by (auto simp: dq_def)
  have "numberedStem ?V = d1 # d2 # CHR ''-'' # Z" by (simp add: numberedStem_def)
  then show \<open>fixRelativeLinks (pre @ ''href="'' @ d1 # d2 # ''-'' @ Z @ ''.md"'' @ post)
              = fixRelativeLinks pre @ ''href="'' @ d1 # d2 # ''-'' @ Z @ ''.html"''
                @ fixRelativeLinks post\<close>
    using fix_numbered_link [OF q nt, of pre post] by (simp add: dq_def)
next
  fix pre post
  let ?V = "''https://example.com''"
  let ?p1 = "relink parentTarget parentStem" and ?p2 = "relink numberedTarget numberedStem"
  have V: "dq \<notin> set ?V" "\<not> endsMd ?V" "\<And>B. ?V \<noteq> B @ ''href=''"
  proof -
    show "dq \<notin> set ?V" by (simp add: dq_def)
    show "\<not> endsMd ?V" unfolding endsMd_def
    proof
      assume "\<exists>W. ?V = W @ ''.md''"
      then obtain W where "?V = W @ ''.md''" ..
      then have "last ?V = last (W @ ''.md'')" by simp
      then show False by simp
    qed
    show "?V \<noteq> B @ ''href=''" for B
    proof
      assume "?V = B @ ''href=''"
      then have "last ?V = last (B @ ''href='')" by simp
      then show False by simp
    qed
  qed
  have np: "\<not> parentTarget ?V" "\<not> numberedTarget ?V"
    using V(2) parentTarget_md numberedTarget_md by blast+
  have 1: \<open>?p1 (pre @ ''href="'' @ ?V @ dq # post) = ?p1 pre @ ''href="'' @ ?V @ dq # ?p1 post\<close>
    using parentTarget_md V(1) np(1) V(3) by (rule relink_link_pass)
  have \<open>?p2 (?p1 pre @ ''href="'' @ ?V @ dq # ?p1 post) = ?p2 (?p1 pre) @ ''href="'' @ ?V @ dq # ?p2 (?p1 post)\<close>
    using numberedTarget_md V(1) np(2) V(3) by (rule relink_link_pass)
  then have \<open>fixRelativeLinks (pre @ ''href="'' @ ?V @ dq # post)
      = fixRelativeLinks pre @ ''href="'' @ ?V @ dq # fixRelativeLinks post\<close>
    unfolding fixRelativeLinks_relink 1 by simp
  then show \<open>fixRelativeLinks (pre @ ''href="https://example.com"'' @ post)
        = fixRelativeLinks pre @ ''href="https://example.com"'' @ fixRelativeLinks post\<close>
    by (simp add: dq_def)
next
  fix V pre post
  assume a: \<open>dq \<notin> set V \<and> \<not> matchString re_parent (''href="'' @ V @ ''"'')
          \<and> \<not> matchString re_numbered (''href="'' @ V @ ''"'')\<close>
  then have "\<not> parentTarget V" "\<not> numberedTarget V"
    using no_parent_match_at_link [of V] no_numbered_match_at_link [of V] by blast+
  with a obtain post' where \<open>fixRelativeLinks (pre @ ''href="'' @ V @ dq # post)
           = fixRelativeLinks pre @ ''href="'' @ V @ dq # post'\<close>
    using fix_other_link [of V pre post] by blast
  then show \<open>\<exists>post'. fixRelativeLinks (pre @ ''href="'' @ V @ ''"'' @ post)
                       = fixRelativeLinks pre @ ''href="'' @ V @ ''"'' @ post'\<close>
    by (simp add: dq_def)
next
  fix s assume "\<not> matchString re_parent s \<and> \<not> matchString re_numbered s"
  then have "nohit parentTarget s" "nohit numberedTarget s"
    using no_parent_match_nohit [of s] no_numbered_match_nohit [of s] by blast+
  then show "fixRelativeLinks s = s" by (rule fix_no_match)
qed

theorem C5_witness:
  \<open>fixRelativeLinks ''<a href="https://example.com">site</a> and <a href="#setup">setup</a>''
     = ''<a href="https://example.com">site</a> and <a href="#setup">setup</a>''
   \<and> (\<exists>post'. fixRelativeLinks (''<a '' @ ''href="'' @ ''#setup'' @ ''"'' @ ''>setup</a>'')
         = fixRelativeLinks ''<a '' @ ''href="'' @ ''#setup'' @ ''"'' @ post')
   \<and> fixRelativeLinks ''see <a href="../README.md">the overview</a>''
     = ''see <a href="index.html">the overview</a>''
   \<and> fixRelativeLinks ''see <a href="../exercises/01-compile-go-unchanged.md">the first</a>''
     = ''see <a href="01-compile-go-unchanged.html">the first</a>''
   \<and> fixRelativeLinks ''see <a href="07-runtime-patient-go.md">the next</a>''
     = ''see <a href="07-runtime-patient-go.html">the next</a>''\<close>
proof -
  let ?s = \<open>''<a href="https://example.com">site</a> and <a href="#setup">setup</a>''\<close>
  have 1: "\<not> matchString re_parent ?s \<and> \<not> matchString re_numbered ?s"
    by code_simp
  have 2: \<open>dq \<notin> set ''#setup'' \<and> \<not> matchString re_parent (''href="'' @ ''#setup'' @ ''"'')
          \<and> \<not> matchString re_numbered (''href="'' @ ''#setup'' @ ''"'')\<close>
    by code_simp
  have 3: \<open>fixRelativeLinks ''see <a '' = ''see <a ''\<close> \<open>fixRelativeLinks ''>the overview</a>'' = ''>the overview</a>''\<close>
    \<open>fixRelativeLinks ''>the first</a>'' = ''>the first</a>''\<close>
    \<open>fixRelativeLinks ''>the next</a>'' = ''>the next</a>''\<close>
    by code_simp+
  have 4: \<open>''01-compile-go-unchanged'' \<noteq> [] \<and> dq \<notin> set ''01-compile-go-unchanged''
          \<and> \<not> contains (''01-compile-go-unchanged'' @ ''.md'') ''README.md''\<close>
    by code_simp
  have 5: \<open>CHR ''0'' \<in> set ''0123456789'' \<and> CHR ''7'' \<in> set ''0123456789''
          \<and> ''runtime-patient-go'' \<noteq> [] \<and> dq \<notin> set ''runtime-patient-go''\<close>
    by code_simp
  from C5_two_shapes have
    a: \<open>fixRelativeLinks (''see <a '' @ ''href="../README.md"'' @ ''>the overview</a>'')
        = fixRelativeLinks ''see <a '' @ ''href="index.html"'' @ fixRelativeLinks ''>the overview</a>''\<close>
    and b: "fixRelativeLinks ?s = ?s"
    and c: \<open>\<exists>post'. fixRelativeLinks (''<a '' @ ''href="'' @ ''#setup'' @ ''"'' @ ''>setup</a>'')
         = fixRelativeLinks ''<a '' @ ''href="'' @ ''#setup'' @ ''"'' @ post'\<close>
    using 1 2 by blast+
  from C5_two_shapes 4 have
    d: \<open>fixRelativeLinks (''see <a '' @ ''href="../exercises/'' @ ''01-compile-go-unchanged'' @ ''.md"''
            @ ''>the first</a>'')
        = fixRelativeLinks ''see <a '' @ ''href="'' @ ''01-compile-go-unchanged'' @ ''.html"''
          @ fixRelativeLinks ''>the first</a>''\<close>
    by blast
  from C5_two_shapes 5 have
    e: \<open>fixRelativeLinks (''see <a '' @ ''href="'' @ CHR ''0'' # CHR ''7'' # ''-'' @ ''runtime-patient-go''
            @ ''.md"'' @ ''>the next</a>'')
        = fixRelativeLinks ''see <a '' @ ''href="'' @ CHR ''0'' # CHR ''7'' # ''-'' @ ''runtime-patient-go''
          @ ''.html"'' @ fixRelativeLinks ''>the next</a>''\<close>
    by blast
  show ?thesis using a b c d e unfolding 3 by simp
qed



text \<open>
  C7.  The \<^verbatim>\<open>PrevLink\<close> of every \<^verbatim>\<open>Exercise\<close> that \<^verbatim>\<open>generateExercisePage\<close> returns is \<^verbatim>\<open>index.html\<close>
  or the output file name of a descriptor, and its \<^verbatim>\<open>NextLink\<close> is empty or the output file
  name of a descriptor; in a run that reports success the files they name are among those
  written.
\<close>

theorem C7_links_are_generated:
  assumes "i < length metas"
    and "generateExercisePage lib sys metas exercisesDir outputDir (metas ! i) (int i) tr = (Inr e, tr')"
  shows "PrevLink e \<in> insert ''index.html'' (htmlName ` set metas)
       \<and> (NextLink e = [] \<or> NextLink e \<in> htmlName ` set metas)
       \<and> (succeeded (main lib sys metas exercisesDir outputDir) \<longrightarrow>
            pathJoin lib outputDir (PrevLink e) \<in> writtenPaths (main lib sys metas exercisesDir outputDir)
            \<and> (NextLink e = []
                \<or> pathJoin lib outputDir (NextLink e)
                     \<in> writtenPaths (main lib sys metas exercisesDir outputDir)))"
proof -
  have e: "e = composed lib sys metas exercisesDir i"
    using assms by (rule generateExercisePage_Inr)
  have named: "PrevLink e \<in> insert ''index.html'' (htmlName ` set metas)"
    "NextLink e = [] \<or> NextLink e \<in> htmlName ` set metas"
    unfolding e using composed_links_named [OF assms(1)] by blast+
  have "pathJoin lib outputDir (PrevLink e) \<in> writtenPaths (main lib sys metas exercisesDir outputDir)
      \<and> (NextLink e = [] \<or> pathJoin lib outputDir (NextLink e)
                     \<in> writtenPaths (main lib sys metas exercisesDir outputDir))"
    if "succeeded (main lib sys metas exercisesDir outputDir)"
  proof -
    have ok: "runOk lib sys metas exercisesDir outputDir" using that by (simp add: succeeded_iff)
    have w: "writtenPaths (main lib sys metas exercisesDir outputDir)
        = insert (pathJoin lib outputDir ''index.html'')
           (insert (pathJoin lib outputDir ''style.css'')
              ((\<lambda>m. pathJoin lib outputDir (htmlName m)) ` set metas))"
      unfolding main_ok [OF ok]
      by (simp add: pagePath_image indexPath_def cssPath_def) blast
    show ?thesis unfolding w using named by auto
  qed
  then show ?thesis using named by blast
qed

theorem C7_witness:
  "(1::nat) < length exerciseMetadata
   \<and> succeeded (main sampleLibrary sampleSystem exerciseMetadata ''../exercises'' ''../website'')
   \<and> (\<exists>e tr'. generateExercisePage sampleLibrary sampleSystem exerciseMetadata ''../exercises''
                  ''../website'' (exerciseMetadata ! 1) (int 1) [] = (Inr e, tr')
        \<and> pathJoin sampleLibrary ''../website'' (PrevLink e)
             \<in> writtenPaths (main sampleLibrary sampleSystem exerciseMetadata ''../exercises'' ''../website'')
        \<and> PrevLink e \<in> insert ''index.html'' (htmlName ` set exerciseMetadata))"
proof -
  have len: "(1::nat) < length exerciseMetadata" by (simp add: exerciseMetadata_def)
  have ok: "pageOk sampleLibrary sampleSystem exerciseMetadata ''../exercises'' ''../website'' 1"
    by (simp add: pageOk_def sampleLibrary_def sampleSystem_def)
  obtain e tr' where e: "generateExercisePage sampleLibrary sampleSystem exerciseMetadata
      ''../exercises'' ''../website'' (exerciseMetadata ! 1) (int 1) [] = (Inr e, tr')"
    using generateExercisePage_eq [OF len, of sampleLibrary sampleSystem
        "''../exercises''" "''../website''" "[]"] ok by simp
  from C7_links_are_generated [OF len e] sample_succeeded [of exerciseMetadata]
  have "pathJoin sampleLibrary ''../website'' (PrevLink e)
             \<in> writtenPaths (main sampleLibrary sampleSystem exerciseMetadata ''../exercises'' ''../website'')"
    "PrevLink e \<in> insert ''index.html'' (htmlName ` set exerciseMetadata)"
    by blast+
  then show ?thesis using len e sample_succeeded [of exerciseMetadata] by blast
qed

text \<open>
  C8.  Two runs with the same library, descriptor list and directories, on file systems that
  hold the same sources, that both report success, have the same trace, and leave every
  written file with the same content whatever the disks held before.
\<close>

theorem C8_deterministic:
  assumes "succeeded (main lib sys1 metas exercisesDir outputDir)"
    and "succeeded (main lib sys2 metas exercisesDir outputDir)"
    and "\<forall>m\<in>set metas. readFile sys1 (pathJoin lib exercisesDir (meta_Filename m))
                        = readFile sys2 (pathJoin lib exercisesDir (meta_Filename m))"
  shows "main lib sys1 metas exercisesDir outputDir = main lib sys2 metas exercisesDir outputDir
       \<and> (\<forall>p\<in>writtenPaths (main lib sys1 metas exercisesDir outputDir).
            filesAfter disk1 (main lib sys1 metas exercisesDir outputDir) p
            = filesAfter disk2 (main lib sys2 metas exercisesDir outputDir) p)"
proof -
  have ok: "runOk lib sys1 metas exercisesDir outputDir" "runOk lib sys2 metas exercisesDir outputDir"
    using assms(1,2) by (simp_all add: succeeded_iff)
  have c: "composed lib sys1 metas exercisesDir k = composed lib sys2 metas exercisesDir k"
    if "k < length metas" for k
    using that assms(3) by (rule composed_same_sources)
  have "map (composed lib sys1 metas exercisesDir) [0..<length metas]
      = map (composed lib sys2 metas exercisesDir) [0..<length metas]"
    using c by simp
  then have all: "allComposed lib sys1 metas exercisesDir = allComposed lib sys2 metas exercisesDir"
    by (simp add: allComposed_def)
  have "map (pageEvents lib sys1 metas exercisesDir outputDir) [0..<length metas]
      = map (pageEvents lib sys2 metas exercisesDir outputDir) [0..<length metas]"
    using c by (simp add: pageEvents_def pageText_def)
  then have pages: "pagesDone lib sys1 metas exercisesDir outputDir (length metas)
      = pagesDone lib sys2 metas exercisesDir outputDir (length metas)"
    unfolding pagesDone_def by (simp only:)
  have same: "main lib sys1 metas exercisesDir outputDir = main lib sys2 metas exercisesDir outputDir"
    unfolding main_ok [OF ok(1)] main_ok [OF ok(2)]
    by (simp add: pages indexEvents_def all)
  then show ?thesis using filesAfter_overwritten by auto
qed

theorem C8_witness:
  "succeeded (main sampleLibrary sampleSystem exerciseMetadata ''../exercises'' ''../website'')
   \<and> succeeded (main sampleLibrary sampleOther exerciseMetadata ''../exercises'' ''../website'')
   \<and> readFile sampleSystem ''../exercises/notes.txt'' \<noteq> readFile sampleOther ''../exercises/notes.txt''
   \<and> ''../website/index.html''
        \<in> writtenPaths (main sampleLibrary sampleSystem exerciseMetadata ''../exercises'' ''../website'')
   \<and> filesAfter Map.empty
        (main sampleLibrary sampleSystem exerciseMetadata ''../exercises'' ''../website'')
        ''../website/index.html''
      = filesAfter [''../website/index.html'' \<mapsto> ''<html>stale</html>'']
        (main sampleLibrary sampleOther exerciseMetadata ''../exercises'' ''../website'')
        ''../website/index.html''"
proof -
  have s1: "succeeded (main sampleLibrary sampleSystem exerciseMetadata ''../exercises'' ''../website'')"
    by (rule sample_succeeded)
  have s2: "succeeded (main sampleLibrary sampleOther exerciseMetadata ''../exercises'' ''../website'')"
    by (simp add: succeeded_iff other_runOk)
  have d: "readFile sampleSystem ''../exercises/notes.txt'' \<noteq> readFile sampleOther ''../exercises/notes.txt''"
    by (simp add: sampleSystem_def sampleOther_def)
  have w: "''../website/index.html''
        \<in> writtenPaths (main sampleLibrary sampleSystem exerciseMetadata ''../exercises'' ''../website'')"
    unfolding main_ok [OF sample_runOk] by (simp add: indexPath_def sampleLibrary_def)
  from C8_deterministic [OF s1 s2 other_sources, of Map.empty
      "[''../website/index.html'' \<mapsto> ''<html>stale</html>'']"] w
  have "filesAfter Map.empty
        (main sampleLibrary sampleSystem exerciseMetadata ''../exercises'' ''../website'')
        ''../website/index.html''
      = filesAfter [''../website/index.html'' \<mapsto> ''<html>stale</html>'']
        (main sampleLibrary sampleOther exerciseMetadata ''../exercises'' ''../website'')
        ''../website/index.html''"
    by blast
  then show ?thesis using s1 s2 d w by (intro conjI)
qed

text \<open>
  C9.  A link \<^verbatim>\<open>href="../exercises/NAME.md"\<close> whose \<open>NAME\<close> contains \<^verbatim>\<open>README.md\<close> is rewritten to
  \<^verbatim>\<open>href="index.html"\<close>, not to \<^verbatim>\<open>href="NAME.html"\<close>: the test for the overview document is
  \<^verbatim>\<open>strings.Contains\<close> on the whole matched text and comes before the rule for exercise files.
\<close>

theorem C9_readme_substring_wins:
  assumes "dq \<notin> set NAME" "contains NAME ''README.md''"
  shows \<open>fixRelativeLinks (pre @ ''href="../exercises/'' @ NAME @ ''.md"'' @ post)
           = fixRelativeLinks pre @ ''href="index.html"'' @ fixRelativeLinks post
         \<and> ''href="index.html"'' \<noteq> ''href="'' @ NAME @ ''.html"''\<close>
proof
  let ?V = "''../exercises/'' @ NAME @ ''.md''"
  have ne: "NAME \<noteq> []" using assms(2) by auto
  then have pt: "parentTarget ?V" unfolding parentTarget_def by blast
  have q: "dq \<notin> set ?V" using assms(1) by (simp add: dq_def)
  have \<open>contains (''href="../exercises/'' @ NAME @ ''.md"'') ''README.md''\<close>
    using assms(2) by (rule contains_inside)
  then have "parentStem ?V = ''index''" by (simp add: parentStem_def)
  then show \<open>fixRelativeLinks (pre @ ''href="../exercises/'' @ NAME @ ''.md"'' @ post)
           = fixRelativeLinks pre @ ''href="index.html"'' @ fixRelativeLinks post\<close>
    using fix_parent_link [OF q pt, of pre post] by (simp add: dq_def)
  show \<open>''href="index.html"'' \<noteq> ''href="'' @ NAME @ ''.html"''\<close>
  proof
    assume \<open>''href="index.html"'' = ''href="'' @ NAME @ ''.html"''\<close>
    then have "NAME = ''index''" by simp
    then show False using assms(2) by simp
  qed
qed

theorem C9_witness:
  \<open>dq \<notin> set ''notes-README.md-old'' \<and> contains ''notes-README.md-old'' ''README.md''
   \<and> fixRelativeLinks ''<a href="../exercises/notes-README.md-old.md">notes</a>''
       = ''<a href="index.html">notes</a>''\<close>
proof -
  have h: \<open>dq \<notin> set ''notes-README.md-old''\<close> \<open>contains ''notes-README.md-old'' ''README.md''\<close>
    by code_simp+
  have e: \<open>fixRelativeLinks ''<a '' = ''<a ''\<close> \<open>fixRelativeLinks ''>notes</a>'' = ''>notes</a>''\<close>
    by code_simp+
  show ?thesis
    using h C9_readme_substring_wins [OF h, of \<open>''<a ''\<close> \<open>''>notes</a>''\<close>]
    unfolding e by simp
qed

text \<open>
  C10, as stated, fails where nothing stands between the dash and \<^verbatim>\<open>.md\<close>: the pattern asks
  for at least one character there (\<^verbatim>\<open>[^"]+\<close>), so \<^verbatim>\<open>href="99-.md"\<close> is not rewritten.
\<close>


theorem C10_counterexample:
  \<open>fixRelativeLinks ''href="99-.md"'' = ''href="99-.md"''
   \<and> fixRelativeLinks ''href="99-.md"'' \<noteq> ''href="99-.html"''\<close>
  by code_simp

text \<open>
  C10, amended.  Every link whose value is two digits, a dash, at least one character other
  than a double quote, and \<^verbatim>\<open>.md\<close> is rewritten to the same name with \<^verbatim>\<open>.html\<close>, wherever it
  stands.  \<^verbatim>\<open>fixRelativeLinks\<close> has the fragment as its only argument: the descriptor list plays
  no part, and \<^verbatim>\<open>href="99-nonexistent.md"\<close> is rewritten although no descriptor has that file.
\<close>

theorem C10_numbered_link_rewritten:
  assumes "d1 \<in> set ''0123456789''" "d2 \<in> set ''0123456789''" "Z \<noteq> []" "dq \<notin> set Z"
  shows \<open>fixRelativeLinks (pre @ ''href="'' @ d1 # d2 # ''-'' @ Z @ ''.md"'' @ post)
           = fixRelativeLinks pre @ ''href="'' @ d1 # d2 # ''-'' @ Z @ ''.html"'' @ fixRelativeLinks post\<close>
proof -
  let ?V = "d1 # d2 # CHR ''-'' # Z @ ''.md''"
  have nt: "numberedTarget ?V" unfolding numberedTarget_def using assms(1-3) by blast
  have q: "dq \<notin> set ?V" using assms by (auto simp: dq_def)
  have "numberedStem ?V = d1 # d2 # CHR ''-'' # Z" by (simp add: numberedStem_def)
  then show ?thesis
    using fix_numbered_link [OF q nt, of pre post] by (simp add: dq_def)
qed

theorem C10_witness:
  \<open>CHR ''9'' \<in> set ''0123456789'' \<and> ''nonexistent'' \<noteq> [] \<and> dq \<notin> set ''nonexistent''
   \<and> ''99-nonexistent.md'' \<notin> meta_Filename ` set exerciseMetadata
   \<and> fixRelativeLinks ''<a href="99-nonexistent.md">next</a>''
       = ''<a href="99-nonexistent.html">next</a>''\<close>
proof -
  have h: \<open>CHR ''9'' \<in> set ''0123456789''\<close> \<open>''nonexistent'' \<noteq> []\<close> \<open>dq \<notin> set ''nonexistent''\<close>
    by (simp_all add: dq_def)
  have m: "''99-nonexistent.md'' \<notin> meta_Filename ` set exerciseMetadata"
    by (simp add: exerciseMetadata_def)
  have e: \<open>fixRelativeLinks ''<a '' = ''<a ''\<close> \<open>fixRelativeLinks ''>next</a>'' = ''>next</a>''\<close>
    by code_simp+
  show ?thesis
    using h m C10_numbered_link_rewritten [OF h(1) h(1) h(2) h(3), of \<open>''<a ''\<close> \<open>''>next</a>''\<close>]
    unfolding e by simp
qed

end
